theory Spec2Isabelle
  imports Main "HOL-Library.Word" "HOL-Library.Multiset"
begin

unbundle bit_operations_syntax

section \<open>The cvd server of host/commands/cvd/server.cc\<close>

subsection \<open>Results, requests and handlers\<close>

text \<open>
  \<open>Result<T>\<close> is \<open>error + T\<close>, with \<open>Inl\<close> the error. An error carries its message.
  \<open>CF_EXPECT\<close> on a false condition returns an error with the message given to it (or the
  text of the condition when none is given); on a failed \<open>Result\<close> it returns that
  result's error. The source locations the macro adds to a message are left out.
\<close>

datatype error = Error string

text \<open>
  A \<open>CvdServerHandler*\<close> is an address. The three virtual methods of the handler
  classes are not part of server.cc; they are taken as the functions of a table that is
  a parameter of everything below. \<open>CanHandle\<close> returns a \<open>Result<bool>\<close>: the
  source unwraps it with \<open>CF_EXPECT\<close> and then tests the value.
\<close>

type_synonym handler_ptr = nat
type_synonym RequestWithStdio = string
type_synonym Response = string

record CvdServerHandler =
  CanHandle :: "handler_ptr \<Rightarrow> RequestWithStdio \<Rightarrow> error + bool"
  Handle :: "handler_ptr \<Rightarrow> RequestWithStdio \<Rightarrow> error + Response"
  Interrupt :: "handler_ptr \<Rightarrow> error + unit"

text \<open>The decimal text that \<open>operator<<\<close> writes for a \<open>size_t\<close>.\<close>

fun to_decimal :: "nat \<Rightarrow> string" where
  "to_decimal n =
     (if n < 10 then [''0123456789'' ! n]
      else to_decimal (n div 10) @ [''0123456789'' ! (n mod 10)])"

declare to_decimal.simps [simp del]

text \<open>
  The loop of \<open>RequestHandler\<close> (lines 114 to 118): the handlers in order, the
  compatible ones pushed to the back of the vector, the first failed \<open>CanHandle\<close>
  returned at once.
\<close>

fun compatible_loop ::
  "CvdServerHandler \<Rightarrow> RequestWithStdio \<Rightarrow> handler_ptr list \<Rightarrow> handler_ptr list
     \<Rightarrow> error + handler_ptr list" where
  "compatible_loop vt request [] compatible_handlers = Inr compatible_handlers"
| "compatible_loop vt request (handler # rest) compatible_handlers =
     (case CanHandle vt handler request of
        Inl e \<Rightarrow> Inl e
      | Inr can \<Rightarrow>
          compatible_loop vt request rest
            (if can then compatible_handlers @ [handler] else compatible_handlers))"

definition RequestHandler ::
  "CvdServerHandler \<Rightarrow> RequestWithStdio \<Rightarrow> handler_ptr list \<Rightarrow> error + handler_ptr" where
  "RequestHandler vt request handlers =
     (case compatible_loop vt request handlers [] of
        Inl e \<Rightarrow> Inl e
      | Inr compatible_handlers \<Rightarrow>
          if length compatible_handlers = 1 then Inr (compatible_handlers ! 0)
          else Inl (Error (''Expected exactly one handler for message, found ''
                            @ to_decimal (length compatible_handlers))))"

text \<open>
  The number of handlers whose predicate returns true for a request: the match count
  the routing rule speaks of.
\<close>

definition match_count :: "CvdServerHandler \<Rightarrow> RequestWithStdio \<Rightarrow> handler_ptr list \<Rightarrow> nat" where
  "match_count vt request handlers =
     length (filter (\<lambda>h. CanHandle vt h request = Inr True) handlers)"

subsection \<open>The server and the multiplexer it registers with\<close>

text \<open>
  \<open>EPOLLIN\<close> and \<open>EPOLLHUP\<close> have their Linux values; \<open>EpollEvent\<close> is the
  descriptor and the \<open>uint32_t\<close> event mask.
\<close>

type_synonym SharedFD = nat

definition EPOLLIN :: "32 word" where
  "EPOLLIN = 0x001"

definition EPOLLHUP :: "32 word" where
  "EPOLLHUP = 0x010"

record EpollEvent =
  fd :: SharedFD
  events :: "32 word"

text \<open>
  The four closures that server.cc registers: \<open>cb\<close>/\<open>self_cb\<close> calling
  \<open>AcceptClient\<close>, \<open>client_cb\<close>/\<open>self_cb\<close> calling \<open>HandleMessage\<close>,
  \<open>interrupt_cb\<close> closing over the address of its \<open>SharedState\<close>, and the
  callback of \<open>BestEffortWakeup\<close> that does nothing.
\<close>

datatype EpollCallback =
    AcceptClient_cb
  | HandleMessage_cb
  | interrupt_cb nat
  | wakeup_cb

text \<open>What the server does to the outside, in order, with the outcome where one matters.\<close>

datatype action =
    Call_Register SharedFD "32 word" EpollCallback bool
  | Call_Remove SharedFD bool
  | Call_Accept SharedFD
  | Call_GetRequest SharedFD
  | Call_Handle handler_ptr
  | Call_SendResponse SharedFD bool
  | Call_Interrupt handler_ptr
  | Lock nat
  | Unlock nat
  | Call_Stop
  | Guard_fired

text \<open>
  \<open>running\<close> is the member \<open>running_\<close>; \<open>callbacks\<close> is the registration table
  of \<open>epoll_pool_\<close>; \<open>shared_handler\<close> is the store of the \<open>SharedState\<close>
  objects made by \<open>std::make_shared\<close> (address to its \<open>handler\<close> field, \<open>None\<close>
  the null pointer) and \<open>shared_count\<close> the next free address.
\<close>

record CvdServer =
  running :: bool
  callbacks :: "(SharedFD \<times> 32 word \<times> EpollCallback) list"
  shared_handler :: "nat \<Rightarrow> handler_ptr option"
  shared_count :: nat
  trace :: "action list"

text \<open>
  What the collaborators answer during one callback: the handler classes, the
  multibindings of the injector, \<open>SharedFD::Accept\<close> (\<open>Inl\<close> the \<open>StrError\<close> of a
  descriptor that is not open), \<open>GetRequest\<close> (\<open>Inr None\<close> at end of file) and
  \<open>SendResponse\<close>.
\<close>

record io_env =
  vtable :: CvdServerHandler
  possible_handlers :: "handler_ptr list"
  Accept :: "SharedFD \<Rightarrow> string + SharedFD"
  GetRequest :: "SharedFD \<Rightarrow> error + RequestWithStdio option"
  SendResponse :: "SharedFD \<Rightarrow> Response \<Rightarrow> error + unit"

definition note_action :: "action \<Rightarrow> CvdServer \<Rightarrow> CvdServer" where
  "note_action a s = s\<lparr>trace := trace s @ [a]\<rparr>"

definition new_actions :: "CvdServer \<Rightarrow> CvdServer \<Rightarrow> action list" where
  "new_actions s s' = drop (length (trace s)) (trace s')"

definition registered :: "SharedFD \<Rightarrow> CvdServer \<Rightarrow> bool" where
  "registered f s = (f \<in> set (map fst (callbacks s)))"

text \<open>
  Modelled from the spec: \<open>EpollPool::Register\<close> of host/commands/cvd/epoll_loop.cc,
  which is missing. Section 4.1: it "fails if the descriptor already has a live
  registration"; otherwise the registration is added to the table.
\<close>

definition Register ::
  "SharedFD \<Rightarrow> 32 word \<Rightarrow> EpollCallback \<Rightarrow> CvdServer \<Rightarrow> (error + unit) \<times> CvdServer" where
  "Register f interest cb s =
     (if registered f s
      then (Inl (Error ''descriptor already has a live registration''),
            note_action (Call_Register f interest cb False) s)
      else (Inr (),
            note_action (Call_Register f interest cb True)
              (s\<lparr>callbacks := callbacks s @ [(f, interest, cb)]\<rparr>)))"

text \<open>
  Modelled from the spec: \<open>EpollPool::Remove\<close> of the same missing file. Section 4.1:
  it "fails if no registration exists"; otherwise the registration of the descriptor is
  taken out of the table.
\<close>

definition Remove :: "SharedFD \<Rightarrow> CvdServer \<Rightarrow> (error + unit) \<times> CvdServer" where
  "Remove f s =
     (if registered f s
      then (Inr (),
            note_action (Call_Remove f True)
              (s\<lparr>callbacks := filter (\<lambda>r. fst r \<noteq> f) (callbacks s)\<rparr>))
      else (Inl (Error ''no registration exists''), note_action (Call_Remove f False) s))"

text \<open>The invariant of the table: no descriptor has two registrations.\<close>

definition one_registration_each :: "CvdServer \<Rightarrow> bool" where
  "one_registration_each s = distinct (map fst (callbacks s))"

definition Stop :: "CvdServer \<Rightarrow> CvdServer" where
  "Stop s = note_action Call_Stop (s\<lparr>running := False\<rparr>)"

subsection \<open>ScopeGuard\<close>

text \<open>
  A \<open>ScopeGuard\<close> holds its function or, after \<open>Cancel\<close>, nothing; its destructor runs
  the function when there is one. The two functions server.cc gives to a guard are the
  lambda of \<open>abandon_client\<close>, which calls \<open>Remove\<close> and drops the result, and the
  lambda of \<open>stop_on_failure\<close>, which calls \<open>Stop\<close>.
\<close>

datatype guard_fn = abandon_client_fn SharedFD | stop_on_failure_fn

type_synonym ScopeGuard = "guard_fn option"

definition Cancel :: "ScopeGuard \<Rightarrow> ScopeGuard" where
  "Cancel g = None"

fun run_guard_fn :: "guard_fn \<Rightarrow> CvdServer \<Rightarrow> CvdServer" where
  "run_guard_fn (abandon_client_fn f) s = snd (Remove f s)"
| "run_guard_fn stop_on_failure_fn s = Stop s"

definition ScopeGuard_destructor :: "ScopeGuard \<Rightarrow> CvdServer \<Rightarrow> CvdServer" where
  "ScopeGuard_destructor g s =
     (case g of None \<Rightarrow> s | Some fn \<Rightarrow> run_guard_fn fn (note_action Guard_fired s))"

subsection \<open>The callbacks\<close>

text \<open>The lambda \<open>interrupt_cb\<close> of \<open>HandleMessage\<close> (lines 198 to 203).\<close>

definition interrupt_callback ::
  "CvdServerHandler \<Rightarrow> nat \<Rightarrow> CvdServer \<Rightarrow> (error + unit) \<times> CvdServer" where
  "interrupt_callback vt shared s =
     (let s1 = note_action (Lock shared) s in
      case shared_handler s1 shared of
        None \<Rightarrow> (Inl (Error ''shared->handler != nullptr''), note_action (Unlock shared) s1)
      | Some h \<Rightarrow>
          (let s2 = note_action (Call_Interrupt h) s1 in
           case Interrupt vt h of
             Inl e \<Rightarrow> (Inl e, note_action (Unlock shared) s2)
           | Inr _ \<Rightarrow> (Inr (), note_action (Unlock shared) s2)))"

text \<open>
  \<open>HandleMessage\<close> (lines 170 to 223) up to its \<open>return\<close>: the result, the guard
  \<open>abandon_client\<close> as it is when the scope is left, and the server. \<open>shared\<close> is the
  address of the new \<open>SharedState\<close>; \<open>shared->handler\<close> at line 206 is the pointer
  stored at line 196.
\<close>

definition HandleMessage_body ::
  "io_env \<Rightarrow> EpollEvent \<Rightarrow> CvdServer \<Rightarrow> (error + unit) \<times> ScopeGuard \<times> CvdServer" where
  "HandleMessage_body env event s =
     (let abandon_client = Some (abandon_client_fn (fd event)) in
      if events event AND EPOLLHUP \<noteq> 0 then
        (Inr (), abandon_client, snd (Remove (fd event) s))
      else if events event AND EPOLLIN = 0 then
        (Inl (Error ''event.events & EPOLLIN''), abandon_client, s)
      else
        (let s1 = note_action (Call_GetRequest (fd event)) s in
         case GetRequest env (fd event) of
           Inl e \<Rightarrow> (Inl e, abandon_client, s1)
         | Inr None \<Rightarrow> (Inr (), abandon_client, snd (Remove (fd event) s1))
         | Inr (Some request) \<Rightarrow>
             (let shared = shared_count s1;
                  s2 = s1\<lparr>shared_count := Suc shared\<rparr> in
              case RequestHandler (vtable env) request (possible_handlers env) of
                Inl e \<Rightarrow> (Inl e, abandon_client, s2)
              | Inr handler \<Rightarrow>
                  (let s3 = s2\<lparr>shared_handler := (shared_handler s2)(shared := Some handler)\<rparr> in
                   case Register (fd event) EPOLLHUP (interrupt_cb shared) s3 of
                     (Inl e, s4) \<Rightarrow> (Inl e, abandon_client, s4)
                   | (Inr _, s4) \<Rightarrow>
                       (let s5 = note_action (Call_Handle handler) s4 in
                        case Handle (vtable env) handler request of
                          Inl e \<Rightarrow> (Inl e, abandon_client, s5)
                        | Inr response \<Rightarrow>
                            (case SendResponse env (fd event) response of
                               Inl e \<Rightarrow>
                                 (Inl e, abandon_client,
                                  note_action (Call_SendResponse (fd event) False) s5)
                             | Inr _ \<Rightarrow>
                                 (let s6 = note_action (Call_SendResponse (fd event) True) s5;
                                      s7 = note_action (Unlock shared)
                                             ((note_action (Lock shared) s6)
                                                \<lparr>shared_handler :=
                                                   (shared_handler s6)(shared := None)\<rparr>) in
                                  case Remove (fd event) s7 of
                                    (Inl e, s8) \<Rightarrow> (Inl e, abandon_client, s8)
                                  | (Inr _, s8) \<Rightarrow>
                                      (case Register (fd event) EPOLLIN HandleMessage_cb s8 of
                                         (Inl e, s9) \<Rightarrow> (Inl e, abandon_client, s9)
                                       | (Inr _, s9) \<Rightarrow>
                                           (Inr (), Cancel abandon_client, s9)))))))))"

text \<open>Leaving the scope runs the destructor of \<open>abandon_client\<close>.\<close>

definition HandleMessage ::
  "io_env \<Rightarrow> EpollEvent \<Rightarrow> CvdServer \<Rightarrow> (error + unit) \<times> CvdServer" where
  "HandleMessage env event s =
     (case HandleMessage_body env event s of
        (result, abandon_client, s') \<Rightarrow> (result, ScopeGuard_destructor abandon_client s'))"

text \<open>\<open>AcceptClient\<close> (lines 148 to 168), in the same two parts.\<close>

definition AcceptClient_body ::
  "io_env \<Rightarrow> EpollEvent \<Rightarrow> CvdServer \<Rightarrow> (error + unit) \<times> ScopeGuard \<times> CvdServer" where
  "AcceptClient_body env event s =
     (let stop_on_failure = Some stop_on_failure_fn in
      if events event AND EPOLLIN = 0 then
        (Inl (Error ''event.events & EPOLLIN''), stop_on_failure, s)
      else
        (let s1 = note_action (Call_Accept (fd event)) s in
         case Accept env (fd event) of
           Inl str_error \<Rightarrow> (Inl (Error str_error), stop_on_failure, s1)
         | Inr client_fd \<Rightarrow>
             (case Register client_fd EPOLLIN HandleMessage_cb s1 of
                (Inl e, s2) \<Rightarrow> (Inl e, stop_on_failure, s2)
              | (Inr _, s2) \<Rightarrow>
                  (case Register (fd event) EPOLLIN AcceptClient_cb s2 of
                     (Inl e, s3) \<Rightarrow> (Inl e, stop_on_failure, s3)
                   | (Inr _, s3) \<Rightarrow> (Inr (), Cancel stop_on_failure, s3)))))"

definition AcceptClient ::
  "io_env \<Rightarrow> EpollEvent \<Rightarrow> CvdServer \<Rightarrow> (error + unit) \<times> CvdServer" where
  "AcceptClient env event s =
     (case AcceptClient_body env event s of
        (result, stop_on_failure, s') \<Rightarrow> (result, ScopeGuard_destructor stop_on_failure s'))"

text \<open>
  Two shapes of the server after a callback, for stating what each path of
  \<open>HandleMessage\<close> and \<open>AcceptClient\<close> leaves behind: the descriptor's registration
  gone and some actions done; the server stopped by \<open>stop_on_failure\<close> after some
  actions.
\<close>

definition dropped :: "SharedFD \<Rightarrow> CvdServer \<Rightarrow> action list \<Rightarrow> CvdServer" where
  "dropped f s acts =
     s\<lparr>callbacks := filter (\<lambda>r. fst r \<noteq> f) (callbacks s), trace := trace s @ acts\<rparr>"

definition stopped :: "CvdServer \<Rightarrow> action list \<Rightarrow> CvdServer" where
  "stopped s acts = s\<lparr>running := False, trace := trace s @ acts @ [Guard_fired, Call_Stop]\<rparr>"

subsection \<open>The worker threads and the shutdown cascade\<close>

text \<open>
  \<open>BestEffortWakeup\<close> (lines 86 to 97). What the kernel answers is a parameter:
  \<open>event_result\<close> is the new eventfd, or the \<open>StrError\<close> of one that is not open;
  \<open>write_result\<close> is the outcome of \<open>EventfdWrite(1)\<close>.
\<close>

definition BestEffortWakeup ::
  "string + SharedFD \<Rightarrow> string + unit \<Rightarrow> CvdServer \<Rightarrow> (error + unit) \<times> CvdServer" where
  "BestEffortWakeup event_result write_result s =
     (case event_result of
        Inl str_error \<Rightarrow> (Inl (Error str_error), s)
      | Inr eventfd \<Rightarrow>
          (case write_result of
             Inl str_error \<Rightarrow> (Inl (Error str_error), s)
           | Inr _ \<Rightarrow>
               (case Register eventfd EPOLLIN wakeup_cb s of
                  (Inl e, s') \<Rightarrow> (Inl e, s')
                | (Inr _, s') \<Rightarrow> (Inr (), s'))))"

text \<open>What each registered closure does when the multiplexer calls it.\<close>

definition invoke_callback ::
  "io_env \<Rightarrow> EpollCallback \<Rightarrow> EpollEvent \<Rightarrow> CvdServer \<Rightarrow> (error + unit) \<times> CvdServer" where
  "invoke_callback env cb event s =
     (case cb of
        AcceptClient_cb \<Rightarrow> AcceptClient env event s
      | HandleMessage_cb \<Rightarrow> HandleMessage env event s
      | interrupt_cb shared \<Rightarrow> interrupt_callback (vtable env) shared s
      | wakeup_cb \<Rightarrow> (Inr (), s))"

text \<open>
  Modelled from the spec: \<open>EpollPool::HandleEvent\<close> of the missing epoll_loop.cc, for
  the ready event the wait has returned. Section 4.1: it "invokes that descriptor's
  callback on the calling thread and returns the callback's result", and "the multiplexer
  does not re-arm automatically": the registration is taken out of the table before the
  callback runs, which is why \<open>HandleMessage\<close> and \<open>AcceptClient\<close> can register the
  descriptor of their own event again.
\<close>

definition HandleEvent ::
  "io_env \<Rightarrow> EpollEvent \<Rightarrow> CvdServer \<Rightarrow> (error + unit) \<times> CvdServer" where
  "HandleEvent env event s =
     (case find (\<lambda>r. fst r = fd event) (callbacks s) of
        None \<Rightarrow> (Inl (Error ''no callback for the ready descriptor''), s)
      | Some (f, interest, cb) \<Rightarrow>
          invoke_callback env cb event
            (s\<lparr>callbacks := filter (\<lambda>r. fst r \<noteq> fd event) (callbacks s)\<rparr>))"

text \<open>
  A worker thread runs the lambda of the constructor (lines 66 to 75). It is inside
  \<open>HandleEvent\<close>, or at the test of \<open>while (running_)\<close>, or past the loop and about
  to call \<open>BestEffortWakeup\<close>, or it has returned. \<open>armed\<close> lists the eventfds the
  thread has registered.
\<close>

datatype worker_pc = in_HandleEvent | at_loop_test | at_BestEffortWakeup | terminated

record worker =
  pc :: worker_pc
  armed :: "SharedFD list"

text \<open>
  The process: the server, the threads of \<open>threads_\<close>, and the kernel's side of it.
  \<open>signaled\<close> are the eventfds that were written and never read, which stay readable;
  no other descriptor becomes ready (there is no client traffic). \<open>next_fd\<close> is the
  descriptor the next \<open>SharedFD::Event()\<close> returns; the kernel has descriptors to give, so
  the call and the write to the new eventfd succeed. \<open>aborted\<close> is set by a failed
  \<open>CHECK\<close>.
\<close>

record pool =
  server :: CvdServer
  workers :: "worker list"
  signaled :: "SharedFD list"
  next_fd :: SharedFD
  aborted :: bool

definition ready_registrations :: "pool \<Rightarrow> (SharedFD \<times> 32 word \<times> EpollCallback) list" where
  "ready_registrations p =
     filter (\<lambda>r. fst r \<in> set (signaled p) \<and> fst (snd r) AND EPOLLIN \<noteq> 0)
       (callbacks (server p))"

definition set_worker :: "nat \<Rightarrow> worker \<Rightarrow> pool \<Rightarrow> pool" where
  "set_worker i w p = p\<lparr>workers := (workers p)[i := w]\<rparr>"

text \<open>A call of \<open>BestEffortWakeup\<close> in this process: its result and the new eventfd.\<close>

definition arm_wakeup :: "pool \<Rightarrow> (error + unit) \<times> SharedFD \<times> pool" where
  "arm_wakeup p =
     (let eventfd = next_fd p in
      case BestEffortWakeup (Inr eventfd) (Inr ()) (server p) of
        (wakeup, s') \<Rightarrow>
          (wakeup, eventfd,
           p\<lparr>server := s', signaled := signaled p @ [eventfd], next_fd := Suc eventfd\<rparr>))"

text \<open>
  The states thread \<open>i\<close> can move the process to in one step. A thread inside
  \<open>HandleEvent\<close> has a step for each registration that is ready, and none while
  nothing is ready: it is blocked. The result of \<open>HandleEvent\<close> is only logged by the
  loop.
\<close>

definition worker_successors :: "io_env \<Rightarrow> pool \<Rightarrow> nat \<Rightarrow> pool list" where
  "worker_successors env p i =
     (let w = workers p ! i in
      if aborted p then []
      else case pc w of
        at_loop_test \<Rightarrow>
          [set_worker i
             (w\<lparr>pc := if running (server p) then in_HandleEvent else at_BestEffortWakeup\<rparr>) p]
      | in_HandleEvent \<Rightarrow>
          map (\<lambda>r. set_worker i (w\<lparr>pc := at_loop_test\<rparr>)
                     (p\<lparr>server :=
                          snd (HandleEvent env \<lparr>fd = fst r, events = EPOLLIN\<rparr> (server p))\<rparr>))
            (ready_registrations p)
      | at_BestEffortWakeup \<Rightarrow>
          (case arm_wakeup p of
             (Inl e, eventfd, p') \<Rightarrow> [p'\<lparr>aborted := True\<rparr>]
           | (Inr _, eventfd, p') \<Rightarrow>
               [set_worker i (w\<lparr>pc := terminated, armed := armed w @ [eventfd]\<rparr>) p'])
      | terminated \<Rightarrow> [])"

definition pool_successors :: "io_env \<Rightarrow> pool \<Rightarrow> pool list" where
  "pool_successors env p = concat (map (worker_successors env p) [0..<length (workers p)])"

text \<open>An interleaving of the threads: each state is a successor of the one before.\<close>

fun is_run :: "io_env \<Rightarrow> pool list \<Rightarrow> bool" where
  "is_run env [] = True"
| "is_run env [p] = True"
| "is_run env (p # q # rest) = (q \<in> set (pool_successors env p) \<and> is_run env (q # rest))"

text \<open>The interleaving that always takes the first step there is, for at most \<open>k\<close> steps.\<close>

fun first_schedule :: "io_env \<Rightarrow> nat \<Rightarrow> pool \<Rightarrow> pool list" where
  "first_schedule env 0 p = []"
| "first_schedule env (Suc k) p =
     (case pool_successors env p of [] \<Rightarrow> [] | q # _ \<Rightarrow> q # first_schedule env k q)"

text \<open>\<open>n\<close> threads, all blocked inside \<open>HandleEvent\<close>, nothing signaled.\<close>

definition blocked_pool :: "nat \<Rightarrow> CvdServer \<Rightarrow> SharedFD \<Rightarrow> pool" where
  "blocked_pool n s free_fd =
     \<lparr>server = s, workers = replicate n \<lparr>pc = in_HandleEvent, armed = []\<rparr>,
      signaled = [], next_fd = free_fd, aborted = False\<rparr>"

text \<open>
  The destructor up to its \<open>Join\<close> (lines 80 to 82): \<open>running_ = false\<close>, the first
  \<open>BestEffortWakeup\<close> and its \<open>CHECK\<close>.
\<close>

definition request_shutdown :: "pool \<Rightarrow> pool" where
  "request_shutdown p =
     (case arm_wakeup (p\<lparr>server := (server p)\<lparr>running := False\<rparr>\<rparr>) of
        (wakeup, eventfd, p') \<Rightarrow> p'\<lparr>aborted := isl wakeup\<rparr>)"

text \<open>\<open>Join\<close> (lines 101 to 107) returns once every thread has returned.\<close>

definition Join_returns :: "pool \<Rightarrow> bool" where
  "Join_returns p = (\<forall>w\<in>set (workers p). pc w = terminated)"

text \<open>
  For the proof of the cascade: the steps a thread still has to take, whether a thread
  is past its wake-up and has not yet armed the next one, and the invariant that holds
  from the request of shutdown on. Exactly one wake-up is in flight: either one signaled
  registration waits in the table, or one thread is between its wake-up and its own call
  of \<open>BestEffortWakeup\<close>.
\<close>

fun weight :: "worker_pc \<Rightarrow> nat" where
  "weight in_HandleEvent = 3"
| "weight at_loop_test = 2"
| "weight at_BestEffortWakeup = 1"
| "weight terminated = 0"

definition steps_left :: "pool \<Rightarrow> nat" where
  "steps_left p = sum_list (map (\<lambda>w. weight (pc w)) (workers p))"

definition holds_wakeup :: "worker \<Rightarrow> nat" where
  "holds_wakeup w = (if pc w = at_loop_test \<or> pc w = at_BestEffortWakeup then 1 else 0)"

definition cascade_inv :: "SharedFD \<Rightarrow> pool \<Rightarrow> bool" where
  "cascade_inv first_fd p =
     (\<not> aborted p \<and> \<not> running (server p)
      \<and> (\<forall>r\<in>set (callbacks (server p)). fst r < next_fd p)
      \<and> distinct (map fst (callbacks (server p)))
      \<and> (\<forall>r\<in>set (ready_registrations p). snd (snd r) = wakeup_cb)
      \<and> length (ready_registrations p) + sum_list (map holds_wakeup (workers p)) = 1
      \<and> (\<forall>w\<in>set (workers p). length (armed w) = (if pc w = terminated then 1 else 0))
      \<and> first_fd < next_fd p
      \<and> sum_list (map (\<lambda>w. mset (armed w)) (workers p)) = mset [Suc first_fd..<next_fd p])"

subsection \<open>Concrete servers for the examples\<close>

text \<open>
  Three handlers at the addresses 0, 1 and 2; only the one at 1 claims a request. The
  connection is descriptor 5, the listening socket descriptor 3.
\<close>

definition example_vtable :: CvdServerHandler where
  "example_vtable =
     \<lparr>CanHandle = (\<lambda>h r. Inr (h = 1)),
      Handle = (\<lambda>h r. Inr ''response''),
      Interrupt = (\<lambda>h. Inr ())\<rparr>"

definition example_env :: io_env where
  "example_env =
     \<lparr>vtable = example_vtable,
      possible_handlers = [0, 1, 2],
      Accept = (\<lambda>f. Inr 5),
      GetRequest = (\<lambda>f. Inr (Some ''version'')),
      SendResponse = (\<lambda>f r. Inr ())\<rparr>"

definition example_server :: CvdServer where
  "example_server =
     \<lparr>running = True,
      callbacks = [(3, EPOLLIN, AcceptClient_cb)],
      shared_handler = (\<lambda>a. None),
      shared_count = 0,
      trace = []\<rparr>"

definition readable :: EpollEvent where
  "readable = \<lparr>fd = 5, events = EPOLLIN\<rparr>"

definition hangup :: EpollEvent where
  "hangup = \<lparr>fd = 5, events = EPOLLHUP\<rparr>"

text \<open>A handler table in which the handler at 2 fails to decide.\<close>

definition failing_vtable :: CvdServerHandler where
  "failing_vtable =
     \<lparr>CanHandle = (\<lambda>h r. if h = 2 then Inl (Error ''cannot decide'') else Inr (h = 1)),
      Handle = (\<lambda>h r. Inr ''response''),
      Interrupt = (\<lambda>h. Inr ())\<rparr>"

text \<open>An environment whose read fails.\<close>

definition read_failure_env :: io_env where
  "read_failure_env = example_env\<lparr>GetRequest := (\<lambda>f. Inl (Error ''read failed''))\<rparr>"

text \<open>The server after one whole request on descriptor 5.\<close>

definition served_server :: CvdServer where
  "served_server = snd (HandleMessage example_env readable example_server)"

text \<open>The same server while the handler at 1 is still inside \<open>Handle\<close>.\<close>

definition handling_server :: CvdServer where
  "handling_server =
     example_server\<lparr>callbacks := [(3, EPOLLIN, AcceptClient_cb), (5, EPOLLHUP, interrupt_cb 0)],
                    shared_handler := (\<lambda>a. if a = 0 then Some 1 else None),
                    shared_count := 1\<rparr>"

text \<open>An environment in which no handler claims the request, and one whose accept fails.\<close>

definition unrouted_env :: io_env where
  "unrouted_env = example_env\<lparr>possible_handlers := [0, 2]\<rparr>"



text \<open>
  Two blocked threads at the moment shutdown is requested, with 6 the next free
  descriptor, and the interleaving in which the first thread that can move does.
\<close>

definition example_shutdown :: pool where
  "example_shutdown = request_shutdown (blocked_pool 2 example_server 6)"

definition example_cascade :: "pool list" where
  "example_cascade = first_schedule example_env 6 example_shutdown"

section \<open>The routing loop\<close>

lemmas example_defs = example_vtable_def example_env_def example_server_def readable_def
  EPOLLIN_def EPOLLHUP_def

lemmas HandleMessage_defs = HandleMessage_def HandleMessage_body_def Register_def Remove_def
  note_action_def ScopeGuard_destructor_def Cancel_def registered_def Let_def

lemmas AcceptClient_defs = AcceptClient_def AcceptClient_body_def Register_def
  note_action_def ScopeGuard_destructor_def Cancel_def registered_def Stop_def Let_def

lemma compatible_loop_no_error:
  "\<forall>h\<in>set handlers. \<not> isl (CanHandle vt h request) \<Longrightarrow>
   compatible_loop vt request handlers acc =
     Inr (acc @ filter (\<lambda>h. CanHandle vt h request = Inr True) handlers)"
proof (induction handlers arbitrary: acc)
  case Nil
  show ?case by simp
next
  case (Cons h hs)
  from Cons.prems obtain b where b: "CanHandle vt h request = Inr b"
    by (cases "CanHandle vt h request") auto
  from Cons.prems have rest: "\<forall>g\<in>set hs. \<not> isl (CanHandle vt g request)"
    by simp
  show ?case
    using b Cons.IH [OF rest] by simp
qed

lemma compatible_loop_first_error:
  "\<forall>g\<in>set pre. \<not> isl (CanHandle vt g request) \<Longrightarrow> CanHandle vt h request = Inl e \<Longrightarrow>
   compatible_loop vt request (pre @ h # post) acc = Inl e"
proof (induction pre arbitrary: acc)
  case Nil
  then show ?case by simp
next
  case (Cons g gs)
  from Cons.prems obtain b where b: "CanHandle vt g request = Inr b"
    by (cases "CanHandle vt g request") auto
  from Cons.prems have "\<forall>x\<in>set gs. \<not> isl (CanHandle vt x request)"
    by simp
  from Cons.IH [OF this Cons.prems(2)] b show ?case
    by simp
qed

lemma first_error_split:
  "h \<in> set handlers \<Longrightarrow> isl (CanHandle vt h request) \<Longrightarrow>
   \<exists>pre h' post. handlers = pre @ h' # post \<and> (\<forall>g\<in>set pre. \<not> isl (CanHandle vt g request))
      \<and> isl (CanHandle vt h' request)"
proof (induction handlers)
  case Nil
  then show ?case by simp
next
  case (Cons x xs)
  show ?case
  proof (cases "isl (CanHandle vt x request)")
    case True
    then have "x # xs = [] @ x # xs \<and> (\<forall>g\<in>set []. \<not> isl (CanHandle vt g request))
        \<and> isl (CanHandle vt x request)"
      by simp
    then show ?thesis by blast
  next
    case False
    with Cons.prems have "h \<in> set xs" by auto
    from Cons.IH [OF this Cons.prems(2)] obtain pre h' post where
      "xs = pre @ h' # post" "\<forall>g\<in>set pre. \<not> isl (CanHandle vt g request)"
      "isl (CanHandle vt h' request)"
      by blast
    with False have "x # xs = (x # pre) @ h' # post
        \<and> (\<forall>g\<in>set (x # pre). \<not> isl (CanHandle vt g request)) \<and> isl (CanHandle vt h' request)"
      by simp
    then show ?thesis by blast
  qed
qed

lemma filter_singleton_member:
  "filter P xs = [y] \<Longrightarrow> y \<in> set xs \<and> P y"
proof -
  assume a: "filter P xs = [y]"
  have "y \<in> set (filter P xs)" by (simp add: a)
  then show ?thesis by simp
qed

section \<open>The paths through the callbacks\<close>

lemma filter_unregistered:
  "f \<notin> fst ` set cbs \<Longrightarrow> filter (\<lambda>r. fst r \<noteq> f) cbs = cbs"
  by (induction cbs) auto

text \<open>
  Every path through \<open>HandleMessage\<close>, with the result, the server it leaves and the
  actions in their order: hang-up, an event that is not readable, a failed read, end of
  file, a request that cannot be routed, a descriptor that is still registered when the
  interrupt callback is to be installed, a failed \<open>Handle\<close>, a failed
  \<open>SendResponse\<close>, and the served request. After the interrupt callback has been
  installed, its removal and the registration for the next read cannot fail within the
  same call.
\<close>

lemma HandleMessage_paths:
  "HandleMessage env event s =
     (if events event AND EPOLLHUP \<noteq> 0 then
        (Inr (),
         dropped (fd event) s
           [Call_Remove (fd event) (registered (fd event) s), Guard_fired,
            Call_Remove (fd event) False])
      else if events event AND EPOLLIN = 0 then
        (Inl (Error ''event.events & EPOLLIN''),
         dropped (fd event) s [Guard_fired, Call_Remove (fd event) (registered (fd event) s)])
      else case GetRequest env (fd event) of
        Inl e \<Rightarrow>
          (Inl e,
           dropped (fd event) s
             [Call_GetRequest (fd event), Guard_fired,
              Call_Remove (fd event) (registered (fd event) s)])
      | Inr None \<Rightarrow>
          (Inr (),
           dropped (fd event) s
             [Call_GetRequest (fd event), Call_Remove (fd event) (registered (fd event) s),
              Guard_fired, Call_Remove (fd event) False])
      | Inr (Some request) \<Rightarrow>
          (case RequestHandler (vtable env) request (possible_handlers env) of
             Inl e \<Rightarrow>
               (Inl e,
                dropped (fd event) (s\<lparr>shared_count := Suc (shared_count s)\<rparr>)
                  [Call_GetRequest (fd event), Guard_fired,
                   Call_Remove (fd event) (registered (fd event) s)])
           | Inr handler \<Rightarrow>
               (let s' = s\<lparr>shared_handler := (shared_handler s)(shared_count s := Some handler),
                           shared_count := Suc (shared_count s)\<rparr>;
                    interrupt = Call_Register (fd event) EPOLLHUP (interrupt_cb (shared_count s))
                in
                if registered (fd event) s then
                  (Inl (Error ''descriptor already has a live registration''),
                   dropped (fd event) s'
                     [Call_GetRequest (fd event), interrupt False, Guard_fired,
                      Call_Remove (fd event) True])
                else case Handle (vtable env) handler request of
                  Inl e \<Rightarrow>
                    (Inl e,
                     dropped (fd event) s'
                       [Call_GetRequest (fd event), interrupt True, Call_Handle handler,
                        Guard_fired, Call_Remove (fd event) True])
                | Inr response \<Rightarrow>
                    (case SendResponse env (fd event) response of
                       Inl e \<Rightarrow>
                         (Inl e,
                          dropped (fd event) s'
                            [Call_GetRequest (fd event), interrupt True, Call_Handle handler,
                             Call_SendResponse (fd event) False, Guard_fired,
                             Call_Remove (fd event) True])
                     | Inr _ \<Rightarrow>
                         (Inr (),
                          s\<lparr>callbacks := callbacks s @ [(fd event, EPOLLIN, HandleMessage_cb)],
                            shared_handler := (shared_handler s)(shared_count s := None),
                            shared_count := Suc (shared_count s),
                            trace := trace s @
                              [Call_GetRequest (fd event), interrupt True, Call_Handle handler,
                               Call_SendResponse (fd event) True,
                               Lock (shared_count s), Unlock (shared_count s),
                               Call_Remove (fd event) True,
                               Call_Register (fd event) EPOLLIN HandleMessage_cb True]\<rparr>)))))"
  by (auto simp: HandleMessage_defs dropped_def filter_unregistered
        split: sum.splits option.splits prod.splits)

text \<open>
  Every path through \<open>AcceptClient\<close>: each failure ends with the guard calling
  \<open>Stop\<close>.
\<close>

lemma AcceptClient_paths:
  "AcceptClient env event s =
     (if events event AND EPOLLIN = 0 then
        (Inl (Error ''event.events & EPOLLIN''), stopped s [])
      else case Accept env (fd event) of
        Inl str_error \<Rightarrow> (Inl (Error str_error), stopped s [Call_Accept (fd event)])
      | Inr client_fd \<Rightarrow>
          if registered client_fd s then
            (Inl (Error ''descriptor already has a live registration''),
             stopped s
               [Call_Accept (fd event), Call_Register client_fd EPOLLIN HandleMessage_cb False])
          else if fd event = client_fd \<or> registered (fd event) s then
            (Inl (Error ''descriptor already has a live registration''),
             stopped (s\<lparr>callbacks := callbacks s @ [(client_fd, EPOLLIN, HandleMessage_cb)]\<rparr>)
               [Call_Accept (fd event), Call_Register client_fd EPOLLIN HandleMessage_cb True,
                Call_Register (fd event) EPOLLIN AcceptClient_cb False])
          else
            (Inr (),
             s\<lparr>callbacks := callbacks s @ [(client_fd, EPOLLIN, HandleMessage_cb),
                                              (fd event, EPOLLIN, AcceptClient_cb)],
               trace := trace s @
                 [Call_Accept (fd event), Call_Register client_fd EPOLLIN HandleMessage_cb True,
                  Call_Register (fd event) EPOLLIN AcceptClient_cb True]\<rparr>))"
  by (auto simp: AcceptClient_defs stopped_def split: sum.splits prod.splits)

lemmas path_defs = HandleMessage_paths AcceptClient_paths dropped_def stopped_def
  new_actions_def registered_def Let_def

section \<open>Routing\<close>

lemma HandleMessage_Handle_only_routed:
  "Call_Handle h \<in> set (new_actions s (snd (HandleMessage env event s))) \<Longrightarrow>
   \<exists>request. GetRequest env (fd event) = Inr (Some request)
     \<and> RequestHandler (vtable env) request (possible_handlers env) = Inr h"
  by (auto simp: path_defs split: sum.splits option.splits if_splits)

text \<open>
  C1 (as amended). When no handler's \<open>CanHandle\<close> fails, \<open>RequestHandler\<close> succeeds
  if and only if exactly one handler's \<open>CanHandle\<close> returns true, and it returns that
  handler; with no match or with two or more it returns the error whose message ends in
  the match count; and when routing fails \<open>HandleMessage\<close> calls no handler's
  \<open>Handle\<close>.
\<close>

theorem RequestHandler_exactly_one:
  assumes ok: "\<forall>h\<in>set handlers. \<not> isl (CanHandle vt h request)"
  shows "((\<exists>h. RequestHandler vt request handlers = Inr h)
            \<longleftrightarrow> match_count vt request handlers = 1)
       \<and> (\<forall>h. RequestHandler vt request handlers = Inr h
            \<longrightarrow> h \<in> set handlers \<and> CanHandle vt h request = Inr True)
       \<and> (match_count vt request handlers \<noteq> 1
            \<longrightarrow> RequestHandler vt request handlers =
                 Inl (Error (''Expected exactly one handler for message, found ''
                       @ to_decimal (match_count vt request handlers))))
       \<and> (\<forall>env event s h.
             vtable env = vt \<and> possible_handlers env = handlers
             \<and> GetRequest env (fd event) = Inr (Some request)
             \<and> match_count vt request handlers \<noteq> 1
            \<longrightarrow> Call_Handle h \<notin> set (new_actions s (snd (HandleMessage env event s))))"
proof -
  let ?ms = "filter (\<lambda>h. CanHandle vt h request = Inr True) handlers"
  have loop: "compatible_loop vt request handlers [] = Inr ?ms"
    using compatible_loop_no_error [OF ok, of "[]"] by simp
  have routing: "((\<exists>h. RequestHandler vt request handlers = Inr h)
            \<longleftrightarrow> match_count vt request handlers = 1)
       \<and> (\<forall>h. RequestHandler vt request handlers = Inr h
            \<longrightarrow> h \<in> set handlers \<and> CanHandle vt h request = Inr True)
       \<and> (match_count vt request handlers \<noteq> 1
            \<longrightarrow> RequestHandler vt request handlers =
                 Inl (Error (''Expected exactly one handler for message, found ''
                       @ to_decimal (match_count vt request handlers))))"
  proof (cases "length ?ms = 1")
    case True
    then obtain y where y: "?ms = [y]"
      by (cases ?ms) auto
    from filter_singleton_member [OF y]
    have "y \<in> set handlers \<and> CanHandle vt y request = Inr True" .
    with y loop show ?thesis
      by (simp add: RequestHandler_def match_count_def)
  next
    case False
    with loop show ?thesis
      by (simp add: RequestHandler_def match_count_def)
  qed
  have no_handle: "\<forall>env event s h.
             vtable env = vt \<and> possible_handlers env = handlers
             \<and> GetRequest env (fd event) = Inr (Some request)
             \<and> match_count vt request handlers \<noteq> 1
            \<longrightarrow> Call_Handle h \<notin> set (new_actions s (snd (HandleMessage env event s)))"
  proof (intro allI impI notI)
    fix env event s h
    assume a: "vtable env = vt \<and> possible_handlers env = handlers
             \<and> GetRequest env (fd event) = Inr (Some request)
             \<and> match_count vt request handlers \<noteq> 1"
      and c: "Call_Handle h \<in> set (new_actions s (snd (HandleMessage env event s)))"
    from HandleMessage_Handle_only_routed [OF c] a
    have "RequestHandler vt request handlers = Inr h" by auto
    with routing a show False by blast
  qed
  from routing no_handle show ?thesis by blast
qed

text \<open>
  C1, witness: of the three handlers of the example only the one at 1 claims the
  request, and it is the one returned.
\<close>

theorem RequestHandler_exactly_one_witness:
  "\<not> isl (CanHandle example_vtable 0 ''version'')
   \<and> \<not> isl (CanHandle example_vtable 1 ''version'')
   \<and> \<not> isl (CanHandle example_vtable 2 ''version'')
   \<and> match_count example_vtable ''version'' [0, 1, 2] = 1
   \<and> RequestHandler example_vtable ''version'' [0, 1, 2] = Inr 1"
proof -
  have h: "\<forall>h\<in>set [0, 1, 2]. \<not> isl (CanHandle example_vtable h ''version'')"
    by (simp add: example_vtable_def)
  have m: "match_count example_vtable ''version'' [0, 1, 2] = 1"
    by (simp add: match_count_def example_vtable_def)
  from RequestHandler_exactly_one [OF h] m
  obtain x where x: "RequestHandler example_vtable ''version'' [0, 1, 2] = Inr x"
    by blast
  with RequestHandler_exactly_one [OF h]
  have "CanHandle example_vtable x ''version'' = Inr True"
    by blast
  then have "x = 1" by (simp add: example_vtable_def)
  with m x show ?thesis by (simp add: example_vtable_def)
qed

text \<open>
  C1, counterexample to the claim as it was stated: exactly one of the three handlers
  returns true, the handler at 2 fails to decide, and \<open>RequestHandler\<close> returns that
  failure instead of the one match.
\<close>

theorem RequestHandler_counterexample:
  "match_count failing_vtable ''version'' [0, 1, 2] = 1
   \<and> RequestHandler failing_vtable ''version'' [0, 1, 2] = Inl (Error ''cannot decide'')"
  by (simp add: match_count_def RequestHandler_def failing_vtable_def)

text \<open>
  C10. If the \<open>CanHandle\<close> of any registered handler fails, \<open>RequestHandler\<close> selects
  no handler and returns the error of the first handler, in the order of the vector,
  whose \<open>CanHandle\<close> fails, whatever the other handlers answer; where one error is the
  only one any handler fails with, that error is the result.
\<close>

theorem RequestHandler_CanHandle_error:
  assumes "h \<in> set handlers" and "CanHandle vt h request = Inl e"
  shows "(\<exists>pre h' post e'. handlers = pre @ h' # post
           \<and> (\<forall>g\<in>set pre. \<not> isl (CanHandle vt g request))
           \<and> CanHandle vt h' request = Inl e'
           \<and> RequestHandler vt request handlers = Inl e')
       \<and> ((\<forall>g\<in>set handlers. isl (CanHandle vt g request) \<longrightarrow> CanHandle vt g request = Inl e)
            \<longrightarrow> RequestHandler vt request handlers = Inl e)"
proof -
  from assms have "isl (CanHandle vt h request)" by simp
  from first_error_split [OF assms(1) this] obtain pre h' post where
    s: "handlers = pre @ h' # post" and p: "\<forall>g\<in>set pre. \<not> isl (CanHandle vt g request)"
    and i: "isl (CanHandle vt h' request)"
    by blast
  from i obtain e' where e': "CanHandle vt h' request = Inl e'"
    by (cases "CanHandle vt h' request") auto
  have r: "RequestHandler vt request handlers = Inl e'"
    using compatible_loop_first_error [OF p e', of post "[]"] s
    by (simp add: RequestHandler_def)
  from s have "h' \<in> set handlers" by simp
  with e' r have
    "(\<forall>g\<in>set handlers. isl (CanHandle vt g request) \<longrightarrow> CanHandle vt g request = Inl e)
       \<longrightarrow> RequestHandler vt request handlers = Inl e"
    by auto
  with s p e' r show ?thesis by blast
qed

text \<open>
  C10, witness: the handler at 2 fails, the handler at 1 is the only match, and the
  result is an error.
\<close>

theorem RequestHandler_CanHandle_error_witness:
  "(2::nat) \<in> set [0, 1, 2]
   \<and> CanHandle failing_vtable 2 ''version'' = Inl (Error ''cannot decide'')
   \<and> isl (RequestHandler failing_vtable ''version'' [0, 1, 2])"
proof -
  have a: "(2::nat) \<in> set [0, 1, 2]" by simp
  have b: "CanHandle failing_vtable 2 ''version'' = Inl (Error ''cannot decide'')"
    by (simp add: failing_vtable_def)
  from RequestHandler_CanHandle_error [OF a b]
  have "isl (RequestHandler failing_vtable ''version'' [0, 1, 2])"
    by auto
  with a b show ?thesis by simp
qed

section \<open>The interrupt callback\<close>

text \<open>
  C2 (as amended). The interrupt callback first takes the mutex of its shared state. If
  the handler reference is still set it calls that handler's \<open>Interrupt\<close> and returns
  what it returns. If the reference has been cleared it does not call \<open>Interrupt\<close>
  and returns an error.
\<close>

theorem interrupt_callback_cases:
  "(\<exists>rest. new_actions s (snd (interrupt_callback vt shared s)) = Lock shared # rest)
   \<and> (\<forall>h. shared_handler s shared = Some h \<longrightarrow>
         new_actions s (snd (interrupt_callback vt shared s))
           = [Lock shared, Call_Interrupt h, Unlock shared]
         \<and> fst (interrupt_callback vt shared s) = Interrupt vt h)
   \<and> (shared_handler s shared = None \<longrightarrow>
         new_actions s (snd (interrupt_callback vt shared s)) = [Lock shared, Unlock shared]
         \<and> fst (interrupt_callback vt shared s) = Inl (Error ''shared->handler != nullptr''))"
proof (cases "shared_handler s shared")
  case None
  then show ?thesis
    by (simp add: interrupt_callback_def note_action_def new_actions_def)
next
  case (Some h)
  then show ?thesis
    by (cases "Interrupt vt h")
      (simp_all add: interrupt_callback_def note_action_def new_actions_def)
qed

text \<open>
  C2, witness: while the handler at 1 is inside \<open>Handle\<close> the callback interrupts it;
  after the request has been served the callback only locks and unlocks.
\<close>

theorem interrupt_callback_cases_witness:
  "shared_handler handling_server 0 = Some 1
   \<and> new_actions handling_server (snd (interrupt_callback example_vtable 0 handling_server))
       = [Lock 0, Call_Interrupt 1, Unlock 0]
   \<and> fst (interrupt_callback example_vtable 0 handling_server) = Inr ()
   \<and> shared_handler served_server 0 = None
   \<and> new_actions served_server (snd (interrupt_callback example_vtable 0 served_server))
       = [Lock 0, Unlock 0]"
proof -
  have a: "shared_handler handling_server 0 = Some 1"
    by (simp add: handling_server_def example_defs)
  have b: "shared_handler served_server 0 = None"
    by (simp add: served_server_def path_defs example_defs RequestHandler_def)
  have c: "Interrupt example_vtable 1 = Inr ()"
    by (simp add: example_defs)
  from a b c interrupt_callback_cases [of handling_server example_vtable 0]
    interrupt_callback_cases [of served_server example_vtable 0]
  show ?thesis by simp
qed

text \<open>
  C2, counterexample to the claim as it was stated: after a whole request on descriptor 5
  the handler reference of its shared state is cleared, and the callback returns an
  error, not success.
\<close>

theorem interrupt_callback_counterexample:
  "shared_handler served_server 0 = None
   \<and> isl (fst (interrupt_callback example_vtable 0 served_server))"
  by (simp add: served_server_def path_defs example_defs RequestHandler_def
        interrupt_callback_def note_action_def)

section \<open>HandleMessage and AcceptClient\<close>

text \<open>
  C4 (as amended). When \<open>GetRequest\<close> fails, \<open>HandleMessage\<close> returns that error and
  the guard drops the connection: it calls \<open>Remove\<close> and the descriptor has no
  registration afterwards. The running flag is left as it was: the server is not stopped.
\<close>

theorem HandleMessage_read_failure:
  assumes "events event AND EPOLLHUP = 0" and "events event AND EPOLLIN \<noteq> 0"
    and "GetRequest env (fd event) = Inl e"
  shows "fst (HandleMessage env event s) = Inl e
       \<and> new_actions s (snd (HandleMessage env event s))
           = [Call_GetRequest (fd event), Guard_fired,
              Call_Remove (fd event) (registered (fd event) s)]
       \<and> \<not> registered (fd event) (snd (HandleMessage env event s))
       \<and> running (snd (HandleMessage env event s)) = running s"
proof -
  from assms have "HandleMessage env event s =
      (Inl e, dropped (fd event) s
         [Call_GetRequest (fd event), Guard_fired,
          Call_Remove (fd event) (registered (fd event) s)])"
    by (simp add: HandleMessage_paths)
  then show ?thesis
    by (auto simp: dropped_def new_actions_def registered_def)
qed

text \<open>C4, witness: a failed read on descriptor 5 of the running example server.\<close>

theorem HandleMessage_read_failure_witness:
  "events readable AND EPOLLHUP = 0 \<and> events readable AND EPOLLIN \<noteq> 0
   \<and> GetRequest read_failure_env (fd readable) = Inl (Error ''read failed'')
   \<and> fst (HandleMessage read_failure_env readable example_server) = Inl (Error ''read failed'')
   \<and> \<not> registered 5 (snd (HandleMessage read_failure_env readable example_server))
   \<and> running (snd (HandleMessage read_failure_env readable example_server))"
proof -
  have a: "events readable AND EPOLLHUP = 0" and b: "events readable AND EPOLLIN \<noteq> 0"
    and c: "GetRequest read_failure_env (fd readable) = Inl (Error ''read failed'')"
    by (simp_all add: read_failure_env_def example_defs)
  have d: "fd readable = 5" "running example_server"
    by (simp_all add: example_defs)
  from HandleMessage_read_failure [OF a b c, of example_server] a b c d
  show ?thesis by simp
qed

text \<open>
  C4, counterexample to the claim as it was stated: the read fails and the server is
  still running when \<open>HandleMessage\<close> has returned.
\<close>

theorem HandleMessage_read_failure_counterexample:
  "GetRequest read_failure_env (fd readable) = Inl (Error ''read failed'')
   \<and> fst (HandleMessage read_failure_env readable example_server) = Inl (Error ''read failed'')
   \<and> running (snd (HandleMessage read_failure_env readable example_server))"
  by (simp add: path_defs read_failure_env_def example_defs)




text \<open>
  C6. Whenever \<open>HandleMessage\<close> returns an error, its last two actions are the guard
  firing and the guard's call of \<open>Remove\<close> on the descriptor of the connection, which
  has no registration afterwards. Whenever \<open>HandleMessage\<close> reaches the successful
  registration for the next read, it returns success, the guard has been cancelled and
  does not fire, and the registration for the next read stays.
\<close>

theorem abandon_client_guard:
  "(\<forall>e s'. HandleMessage env event s = (Inl e, s') \<longrightarrow>
        (\<exists>pre b. new_actions s s' = pre @ [Guard_fired, Call_Remove (fd event) b])
      \<and> \<not> registered (fd event) s')
   \<and> (\<forall>r s'. HandleMessage env event s = (r, s')
         \<and> Call_Register (fd event) EPOLLIN HandleMessage_cb True \<in> set (new_actions s s') \<longrightarrow>
        r = Inr () \<and> fst (snd (HandleMessage_body env event s)) = None
      \<and> Guard_fired \<notin> set (new_actions s s')
      \<and> s' = snd (snd (HandleMessage_body env event s))
      \<and> (fd event, EPOLLIN, HandleMessage_cb) \<in> set (callbacks s'))"
proof (intro conjI allI impI)
  fix e s'
  assume failed: "HandleMessage env event s = (Inl e, s')"
  then show "\<exists>pre b. new_actions s s' = pre @ [Guard_fired, Call_Remove (fd event) b]"
    by (auto simp: path_defs split: sum.splits option.splits if_splits)
  from failed show "\<not> registered (fd event) s'"
    by (auto simp: path_defs split: sum.splits option.splits if_splits)
next
  fix r s'
  assume "HandleMessage env event s = (r, s')
         \<and> Call_Register (fd event) EPOLLIN HandleMessage_cb True \<in> set (new_actions s s')"
  then have run: "HandleMessage env event s = (r, s')"
    and rearmed: "Call_Register (fd event) EPOLLIN HandleMessage_cb True
        \<in> set (new_actions s s')"
    by simp_all
  from run rearmed show "r = Inr ()"
    by (auto simp: path_defs split: sum.splits option.splits if_splits)
  from run rearmed show "Guard_fired \<notin> set (new_actions s s')"
    by (auto simp: path_defs split: sum.splits option.splits if_splits)
  from run rearmed show "(fd event, EPOLLIN, HandleMessage_cb) \<in> set (callbacks s')"
    by (auto simp: path_defs split: sum.splits option.splits if_splits)
  from run rearmed have cancelled: "fst (snd (HandleMessage_body env event s)) = None"
    by (auto simp: path_defs HandleMessage_body_def Register_def Remove_def note_action_def
          Cancel_def split: sum.splits option.splits if_splits)
  then show "fst (snd (HandleMessage_body env event s)) = None" .
  from cancelled run show "s' = snd (snd (HandleMessage_body env event s))"
    by (cases "HandleMessage_body env event s")
      (simp add: HandleMessage_def ScopeGuard_destructor_def)
qed

text \<open>
  C6, witness: the served request ends with descriptor 5 registered for the next read;
  the request that no handler claims ends with the guard's \<open>Remove\<close>.
\<close>

theorem abandon_client_guard_witness:
  "Call_Register (fd readable) EPOLLIN HandleMessage_cb True
     \<in> set (new_actions example_server (snd (HandleMessage example_env readable example_server)))
   \<and> fst (HandleMessage example_env readable example_server) = Inr ()
   \<and> Guard_fired
       \<notin> set (new_actions example_server (snd (HandleMessage example_env readable example_server)))
   \<and> isl (fst (HandleMessage unrouted_env readable handling_server))
   \<and> \<not> registered (fd readable) (snd (HandleMessage unrouted_env readable handling_server))"
proof -
  have a: "Call_Register (fd readable) EPOLLIN HandleMessage_cb True
     \<in> set (new_actions example_server (snd (HandleMessage example_env readable example_server)))"
    by (simp add: path_defs example_defs RequestHandler_def)
  have b: "isl (fst (HandleMessage unrouted_env readable handling_server))"
    by (simp add: path_defs unrouted_env_def handling_server_def example_defs
          RequestHandler_def)
  then obtain e where e: "HandleMessage unrouted_env readable handling_server
      = (Inl e, snd (HandleMessage unrouted_env readable handling_server))"
    by (cases "HandleMessage unrouted_env readable handling_server") (auto simp: isl_def)
  from abandon_client_guard [of example_env readable example_server] a
  have c: "fst (HandleMessage example_env readable example_server) = Inr ()
      \<and> Guard_fired \<notin> set (new_actions example_server
            (snd (HandleMessage example_env readable example_server)))"
    by (metis prod.collapse)
  from abandon_client_guard [of unrouted_env readable handling_server] e
  have d: "\<not> registered (fd readable) (snd (HandleMessage unrouted_env readable handling_server))"
    by blast
  from a b c d show ?thesis by simp
qed

text \<open>
  C7. Whenever \<open>HandleMessage\<close> registers a descriptor for the next read, it is the
  descriptor of the connection, for \<open>EPOLLIN\<close>, the registration succeeds, and it is
  the last of these actions, in this order: the one read of the request, the
  registration of the interrupt callback, \<open>Handle\<close>, the successful
  \<open>SendResponse\<close>, the clearing of the handler reference under the lock, the removal
  of the interrupt registration, and the registration for the next read.
\<close>

theorem read_rearmed_after_response:
  assumes "Call_Register f interest HandleMessage_cb ok
     \<in> set (new_actions s (snd (HandleMessage env event s)))"
  shows "f = fd event \<and> interest = EPOLLIN \<and> ok
     \<and> (\<exists>h k. new_actions s (snd (HandleMessage env event s)) =
           [Call_GetRequest (fd event),
            Call_Register (fd event) EPOLLHUP (interrupt_cb k) True,
            Call_Handle h,
            Call_SendResponse (fd event) True,
            Lock k, Unlock k,
            Call_Remove (fd event) True,
            Call_Register (fd event) EPOLLIN HandleMessage_cb True])"
  using assms
  by (auto simp: path_defs split: sum.splits option.splits if_splits)

text \<open>C7, witness: the actions of the served request on descriptor 5.\<close>

theorem read_rearmed_after_response_witness:
  "Call_Register 5 EPOLLIN HandleMessage_cb True
     \<in> set (new_actions example_server (snd (HandleMessage example_env readable example_server)))
   \<and> new_actions example_server (snd (HandleMessage example_env readable example_server)) =
       [Call_GetRequest 5, Call_Register 5 EPOLLHUP (interrupt_cb 0) True, Call_Handle 1,
        Call_SendResponse 5 True, Lock 0, Unlock 0, Call_Remove 5 True,
        Call_Register 5 EPOLLIN HandleMessage_cb True]"
proof -
  have a: "Call_Register 5 EPOLLIN HandleMessage_cb True
     \<in> set (new_actions example_server (snd (HandleMessage example_env readable example_server)))"
    by (simp add: path_defs example_defs RequestHandler_def)
  have b: "new_actions example_server (snd (HandleMessage example_env readable example_server)) =
       [Call_GetRequest 5, Call_Register 5 EPOLLHUP (interrupt_cb 0) True, Call_Handle 1,
        Call_SendResponse 5 True, Lock 0, Unlock 0, Call_Remove 5 True,
        Call_Register 5 EPOLLIN HandleMessage_cb True]"
    by (simp add: path_defs example_defs RequestHandler_def)
  from read_rearmed_after_response [OF a] have "(5::nat) = fd readable" by simp
  with a b show ?thesis by simp
qed

text \<open>
  C8. No descriptor ever has two registrations: \<open>Register\<close>, \<open>Remove\<close>,
  \<open>HandleMessage\<close>, \<open>AcceptClient\<close> and the interrupt callback all keep the
  descriptors of the table distinct. \<open>Remove\<close> of a descriptor that has no
  registration returns an error and changes nothing, and so does \<open>Register\<close> of a
  descriptor that has one.
\<close>

theorem registration_discipline:
  "(one_registration_each s \<longrightarrow>
        one_registration_each (snd (Register f interest cb s))
      \<and> one_registration_each (snd (Remove f s))
      \<and> one_registration_each (snd (HandleMessage env event s))
      \<and> one_registration_each (snd (AcceptClient env event s))
      \<and> one_registration_each (snd (interrupt_callback vt shared s)))
   \<and> (\<not> registered f s \<longrightarrow>
        fst (Remove f s) = Inl (Error ''no registration exists'')
      \<and> callbacks (snd (Remove f s)) = callbacks s)
   \<and> (registered f s \<longrightarrow>
        fst (Register f interest cb s) = Inl (Error ''descriptor already has a live registration'')
      \<and> callbacks (snd (Register f interest cb s)) = callbacks s)"
proof (intro conjI impI)
  assume one: "one_registration_each s"
  then show "one_registration_each (snd (Register f interest cb s))"
    by (auto simp: one_registration_each_def Register_def registered_def note_action_def)
  from one show "one_registration_each (snd (Remove f s))"
    by (auto simp: one_registration_each_def Remove_def registered_def note_action_def
          distinct_map_filter)
  from one show "one_registration_each (snd (HandleMessage env event s))"
    by (auto simp: one_registration_each_def path_defs distinct_map_filter
          split: sum.splits option.splits)
  from one show "one_registration_each (snd (AcceptClient env event s))"
    by (auto simp: one_registration_each_def path_defs split: sum.splits)
  from one show "one_registration_each (snd (interrupt_callback vt shared s))"
    by (auto simp: one_registration_each_def interrupt_callback_def note_action_def Let_def
          split: option.splits sum.splits)
next
  assume "\<not> registered f s"
  then show "fst (Remove f s) = Inl (Error ''no registration exists'')"
    and "callbacks (snd (Remove f s)) = callbacks s"
    by (simp_all add: Remove_def note_action_def)
next
  assume "registered f s"
  then show "fst (Register f interest cb s)
      = Inl (Error ''descriptor already has a live registration'')"
    and "callbacks (snd (Register f interest cb s)) = callbacks s"
    by (simp_all add: Register_def note_action_def)
qed

text \<open>
  C8, witness: in the example server descriptor 3 is registered and descriptor 5 is not;
  removing 5 fails, registering 3 again fails, and a served request keeps the table in
  order.
\<close>

theorem registration_discipline_witness:
  "one_registration_each example_server
   \<and> \<not> registered 5 example_server \<and> registered 3 example_server
   \<and> isl (fst (Remove 5 example_server))
   \<and> isl (fst (Register 3 EPOLLIN AcceptClient_cb example_server))
   \<and> one_registration_each (snd (HandleMessage example_env readable example_server))"
proof -
  have a: "one_registration_each example_server"
    and b: "\<not> registered 5 example_server" and c: "registered 3 example_server"
    by (simp_all add: one_registration_each_def registered_def example_defs)
  from registration_discipline [of example_server 5 EPOLLIN AcceptClient_cb example_env readable]
    registration_discipline [of example_server 3 EPOLLIN AcceptClient_cb example_env readable]
    a b c
  show ?thesis by simp
qed

text \<open>
  C9. On an event that has \<open>EPOLLHUP\<close> set, \<open>HandleMessage\<close> calls \<open>Remove\<close> on the
  descriptor and returns success; it reads no request, calls no handler and writes no
  response (the only other actions are the guard and its own \<open>Remove\<close>), and the
  descriptor has no registration afterwards.
\<close>

theorem HandleMessage_hangup:
  assumes "events event AND EPOLLHUP \<noteq> 0"
  shows "fst (HandleMessage env event s) = Inr ()
       \<and> new_actions s (snd (HandleMessage env event s))
           = [Call_Remove (fd event) (registered (fd event) s), Guard_fired,
              Call_Remove (fd event) False]
       \<and> \<not> registered (fd event) (snd (HandleMessage env event s))"
proof -
  from assms have "HandleMessage env event s =
      (Inr (), dropped (fd event) s
         [Call_Remove (fd event) (registered (fd event) s), Guard_fired,
          Call_Remove (fd event) False])"
    by (simp add: HandleMessage_paths)
  then show ?thesis
    by (auto simp: dropped_def new_actions_def registered_def)
qed

text \<open>C9, witness: the peer of descriptor 5 hangs up while its handler is running.\<close>

theorem HandleMessage_hangup_witness:
  "events hangup AND EPOLLHUP \<noteq> 0
   \<and> fst (HandleMessage example_env hangup handling_server) = Inr ()
   \<and> new_actions handling_server (snd (HandleMessage example_env hangup handling_server))
       = [Call_Remove 5 True, Guard_fired, Call_Remove 5 False]
   \<and> callbacks (snd (HandleMessage example_env hangup handling_server))
       = [(3, EPOLLIN, AcceptClient_cb)]"
proof -
  have a: "events hangup AND EPOLLHUP \<noteq> 0"
    by (simp add: hangup_def example_defs)
  have b: "fd hangup = 5" "registered 5 handling_server"
    by (simp_all add: hangup_def handling_server_def example_defs registered_def)
  have c: "callbacks (snd (HandleMessage example_env hangup handling_server))
       = [(3, EPOLLIN, AcceptClient_cb)]"
    by (simp add: path_defs hangup_def handling_server_def example_defs)
  from HandleMessage_hangup [OF a, of example_env handling_server] a b c
  show ?thesis by simp
qed

section \<open>The shutdown cascade\<close>


lemma sum_list_map_update:
  fixes f :: "'a \<Rightarrow> 'b::comm_monoid_add"
  shows "i < length ws \<Longrightarrow>
    sum_list (map f (ws[i := w])) + f (ws ! i) = sum_list (map f ws) + f w"
proof (induction ws arbitrary: i)
  case Nil
  then show ?case by simp
next
  case (Cons a ws)
  show ?case
  proof (cases i)
    case 0
    then show ?thesis by (simp add: ac_simps)
  next
    case (Suc j)
    with Cons.prems have "j < length ws" by simp
    from Cons.IH [OF this] Suc show ?thesis by (simp add: add.assoc)
  qed
qed

lemma find_registration:
  "distinct (map fst cbs) \<Longrightarrow> r \<in> set cbs \<Longrightarrow> find (\<lambda>x. fst x = fst r) cbs = Some r"
proof (induction cbs)
  case Nil
  then show ?case by simp
next
  case (Cons a cbs)
  show ?case
  proof (cases "a = r")
    case True
    then show ?thesis by simp
  next
    case False
    with Cons.prems have in_rest: "r \<in> set cbs" by simp
    with Cons.prems have "fst a \<noteq> fst r" by force
    with Cons.IH in_rest Cons.prems show ?thesis by simp
  qed
qed

lemma filter_erase_length:
  "distinct (map fst cbs) \<Longrightarrow> r \<in> set cbs \<Longrightarrow> P r \<Longrightarrow>
   Suc (length (filter P (filter (\<lambda>x. fst x \<noteq> fst r) cbs))) = length (filter P cbs)"
proof (induction cbs)
  case Nil
  then show ?case by simp
next
  case (Cons a cbs)
  show ?case
  proof (cases "a = r")
    case True
    with Cons.prems have "fst r \<notin> fst ` set cbs" by simp
    then have "\<forall>x\<in>set cbs. fst x \<noteq> fst r" by (metis imageI)
    then have "filter (\<lambda>x. fst x \<noteq> fst r) cbs = cbs" by simp
    with True Cons.prems show ?thesis by simp
  next
    case False
    with Cons.prems have in_rest: "r \<in> set cbs" by simp
    with Cons.prems have "fst a \<noteq> fst r" by force
    with Cons.IH in_rest Cons.prems show ?thesis by simp
  qed
qed

lemma HandleEvent_wakeup:
  assumes "distinct (map fst (callbacks s))" and "r \<in> set (callbacks s)"
    and "snd (snd r) = wakeup_cb"
  shows "HandleEvent env \<lparr>fd = fst r, events = EPOLLIN\<rparr> s
         = (Inr (), s\<lparr>callbacks := filter (\<lambda>x. fst x \<noteq> fst r) (callbacks s)\<rparr>)"
proof -
  obtain f i cb where r: "r = (f, i, cb)" by (cases r) auto
  with assms(3) have cb: "cb = wakeup_cb" by simp
  from find_registration [OF assms(1,2)] r cb show ?thesis
    by (simp add: HandleEvent_def invoke_callback_def)
qed

lemma arm_wakeup_fresh:
  assumes "\<forall>r\<in>set (callbacks (server p)). fst r < next_fd p"
  shows "arm_wakeup p =
    (Inr (), next_fd p,
     p\<lparr>server := note_action (Call_Register (next_fd p) EPOLLIN wakeup_cb True)
           ((server p)\<lparr>callbacks := callbacks (server p) @ [(next_fd p, EPOLLIN, wakeup_cb)]\<rparr>),
       signaled := signaled p @ [next_fd p], next_fd := Suc (next_fd p)\<rparr>)"
proof -
  from assms have "\<not> registered (next_fd p) (server p)"
    by (auto simp: registered_def)
  then show ?thesis
    by (simp add: arm_wakeup_def BestEffortWakeup_def Register_def Let_def)
qed

lemma ready_after_arm:
  assumes "\<forall>r\<in>set (callbacks (server p)). fst r < next_fd p"
  shows "ready_registrations
     (p\<lparr>server := note_action a
           ((server p)\<lparr>callbacks := callbacks (server p) @ [(next_fd p, EPOLLIN, wakeup_cb)]\<rparr>),
       signaled := signaled p @ [next_fd p], next_fd := Suc (next_fd p)\<rparr>)
     = ready_registrations p @ [(next_fd p, EPOLLIN, wakeup_cb)]"
proof -
  have "filter (\<lambda>r. (fst r = next_fd p \<or> fst r \<in> set (signaled p)) \<and> fst (snd r) AND EPOLLIN \<noteq> 0)
          (callbacks (server p))
      = filter (\<lambda>r. fst r \<in> set (signaled p) \<and> fst (snd r) AND EPOLLIN \<noteq> 0) (callbacks (server p))"
    using assms by (intro filter_cong) auto
  then show ?thesis
    by (simp add: ready_registrations_def note_action_def EPOLLIN_def)
qed


lemma set_update_all:
  "\<forall>w\<in>set ws. P w \<Longrightarrow> P w' \<Longrightarrow> \<forall>w\<in>set (ws[i := w']). P w"
  using set_update_subset_insert [of ws i w'] by auto

lemma step_loop_test:
  assumes inv: "cascade_inv b p" and i: "i < length (workers p)"
    and pc: "pc (workers p ! i) = at_loop_test"
    and q: "q \<in> set (worker_successors env p i)"
  shows "cascade_inv b q \<and> Suc (steps_left q) = steps_left p \<and> length (workers q) = length (workers p)"
proof -
  let ?w = "workers p ! i"
  let ?w' = "?w\<lparr>pc := at_BestEffortWakeup\<rparr>"
  from inv have nr: "\<not> running (server p)" and na: "\<not> aborted p"
    by (simp_all add: cascade_inv_def)
  from q pc nr na have q_eq: "q = set_worker i ?w' p"
    by (simp add: worker_successors_def Let_def)
  have hw: "holds_wakeup ?w' = holds_wakeup ?w"
    using pc by (simp add: holds_wakeup_def)
  have "sum_list (map holds_wakeup ((workers p)[i := ?w'])) + holds_wakeup ?w
      = sum_list (map holds_wakeup (workers p)) + holds_wakeup ?w'"
    by (rule sum_list_map_update [OF i])
  with hw have tok: "sum_list (map holds_wakeup ((workers p)[i := ?w']))
      = sum_list (map holds_wakeup (workers p))"
    by simp
  have "sum_list (map (\<lambda>w. weight (pc w)) ((workers p)[i := ?w'])) + weight (pc ?w)
      = sum_list (map (\<lambda>w. weight (pc w)) (workers p)) + weight (pc ?w')"
    by (rule sum_list_map_update [OF i])
  with pc have meas: "Suc (steps_left q) = steps_left p"
    by (simp add: steps_left_def q_eq set_worker_def)
  from inv i have "length (armed ?w) = (if pc ?w = terminated then 1 else 0)"
    by (simp add: cascade_inv_def)
  with pc have "length (armed ?w') = (if pc ?w' = terminated then 1 else 0)"
    by simp
  with inv have arm: "\<forall>w\<in>set ((workers p)[i := ?w']). length (armed w) = (if pc w = terminated then 1 else 0)"
    by (intro set_update_all) (simp_all add: cascade_inv_def)
  have rr: "ready_registrations q = ready_registrations p"
    by (simp add: q_eq set_worker_def ready_registrations_def)
  have "sum_list (map (\<lambda>w. mset (armed w)) ((workers p)[i := ?w'])) + mset (armed ?w)
      = sum_list (map (\<lambda>w. mset (armed w)) (workers p)) + mset (armed ?w')"
    by (rule sum_list_map_update [OF i])
  then have ms: "sum_list (map (\<lambda>w. mset (armed w)) ((workers p)[i := ?w']))
      = sum_list (map (\<lambda>w. mset (armed w)) (workers p))"
    by simp
  from inv tok arm rr ms have "cascade_inv b q"
    by (simp add: cascade_inv_def q_eq set_worker_def)
  with meas show ?thesis
    by (simp add: q_eq set_worker_def)
qed


lemma step_dispatch:
  assumes inv: "cascade_inv b p" and i: "i < length (workers p)"
    and pc: "pc (workers p ! i) = in_HandleEvent"
    and q: "q \<in> set (worker_successors env p i)"
  shows "cascade_inv b q \<and> Suc (steps_left q) = steps_left p \<and> length (workers q) = length (workers p)"
proof -
  let ?w = "workers p ! i"
  let ?w' = "?w\<lparr>pc := at_loop_test\<rparr>"
  let ?P = "\<lambda>r. fst r \<in> set (signaled p) \<and> fst (snd r) AND EPOLLIN \<noteq> 0"
  from inv have na: "\<not> aborted p" and dist: "distinct (map fst (callbacks (server p)))"
    by (simp_all add: cascade_inv_def)
  from q pc na obtain r where r: "r \<in> set (ready_registrations p)"
    and q_eq: "q = set_worker i ?w'
        (p\<lparr>server := snd (HandleEvent env \<lparr>fd = fst r, events = EPOLLIN\<rparr> (server p))\<rparr>)"
    by (auto simp: worker_successors_def Let_def)
  from r have r_in: "r \<in> set (callbacks (server p))" and r_P: "?P r"
    by (simp_all add: ready_registrations_def)
  from inv r have r_cb: "snd (snd r) = wakeup_cb"
    by (simp add: cascade_inv_def)
  let ?s' = "(server p)\<lparr>callbacks := filter (\<lambda>x. fst x \<noteq> fst r) (callbacks (server p))\<rparr>"
  have he: "snd (HandleEvent env \<lparr>fd = fst r, events = EPOLLIN\<rparr> (server p)) = ?s'"
    by (simp add: HandleEvent_wakeup [OF dist r_in r_cb])
  have q_eq': "q = set_worker i ?w' (p\<lparr>server := ?s'\<rparr>)"
    by (simp add: q_eq he)
  have ready_q: "ready_registrations q = filter ?P (filter (\<lambda>x. fst x \<noteq> fst r) (callbacks (server p)))"
    by (simp add: q_eq' set_worker_def ready_registrations_def)
  have ready_p: "ready_registrations p = filter ?P (callbacks (server p))"
    by (simp add: ready_registrations_def)
  have len: "Suc (length (ready_registrations q)) = length (ready_registrations p)"
    unfolding ready_q ready_p
    by (rule filter_erase_length [where P = ?P, OF dist r_in r_P])
  have sub: "set (ready_registrations q) \<subseteq> set (ready_registrations p)"
    unfolding ready_q ready_p by auto
  have "sum_list (map holds_wakeup ((workers p)[i := ?w'])) + holds_wakeup ?w
      = sum_list (map holds_wakeup (workers p)) + holds_wakeup ?w'"
    by (rule sum_list_map_update [OF i])
  with pc have tok: "sum_list (map holds_wakeup ((workers p)[i := ?w']))
      = Suc (sum_list (map holds_wakeup (workers p)))"
    by (simp add: holds_wakeup_def)
  have "sum_list (map (\<lambda>w. weight (pc w)) ((workers p)[i := ?w'])) + weight (pc ?w)
      = sum_list (map (\<lambda>w. weight (pc w)) (workers p)) + weight (pc ?w')"
    by (rule sum_list_map_update [OF i])
  with pc have meas: "Suc (steps_left q) = steps_left p"
    by (simp add: steps_left_def q_eq' set_worker_def)
  from inv i have "length (armed ?w) = (if pc ?w = terminated then 1 else 0)"
    by (simp add: cascade_inv_def)
  with pc have "length (armed ?w') = (if pc ?w' = terminated then 1 else 0)"
    by simp
  with inv have arm: "\<forall>w\<in>set ((workers p)[i := ?w']). length (armed w) = (if pc w = terminated then 1 else 0)"
    by (intro set_update_all) (simp_all add: cascade_inv_def)
  from inv have count: "length (ready_registrations p) + sum_list (map holds_wakeup (workers p)) = 1"
    by (simp add: cascade_inv_def)
  have wq: "workers q = (workers p)[i := ?w']"
    by (simp add: q_eq' set_worker_def)
  from count len tok have count': "length (ready_registrations q) + sum_list (map holds_wakeup (workers q)) = 1"
    unfolding wq by arith
  from inv sub have cbs: "\<forall>r\<in>set (ready_registrations q). snd (snd r) = wakeup_cb"
    by (auto simp: cascade_inv_def)
  have "sum_list (map (\<lambda>w. mset (armed w)) ((workers p)[i := ?w'])) + mset (armed ?w)
      = sum_list (map (\<lambda>w. mset (armed w)) (workers p)) + mset (armed ?w')"
    by (rule sum_list_map_update [OF i])
  then have ms: "sum_list (map (\<lambda>w. mset (armed w)) ((workers p)[i := ?w']))
      = sum_list (map (\<lambda>w. mset (armed w)) (workers p))"
    by simp
  from inv have "\<not> aborted q" "\<not> running (server q)"
      "\<forall>r\<in>set (callbacks (server q)). fst r < next_fd q"
      "distinct (map fst (callbacks (server q)))" "b < next_fd q"
      "mset [Suc b..<next_fd q] = mset [Suc b..<next_fd p]"
    by (simp_all add: cascade_inv_def q_eq' set_worker_def distinct_map_filter)
  with count' cbs arm ms inv have "cascade_inv b q"
    unfolding cascade_inv_def wq by simp
  with meas show ?thesis
    by (simp add: q_eq' set_worker_def)
qed

lemma step_wakeup:
  assumes inv: "cascade_inv b p" and i: "i < length (workers p)"
    and pc: "pc (workers p ! i) = at_BestEffortWakeup"
    and q: "q \<in> set (worker_successors env p i)"
  shows "cascade_inv b q \<and> Suc (steps_left q) = steps_left p \<and> length (workers q) = length (workers p)"
proof -
  let ?w = "workers p ! i"
  let ?w' = "?w\<lparr>pc := terminated, armed := armed ?w @ [next_fd p]\<rparr>"
  let ?a = "Call_Register (next_fd p) EPOLLIN wakeup_cb True"
  let ?p' = "p\<lparr>server := note_action ?a
           ((server p)\<lparr>callbacks := callbacks (server p) @ [(next_fd p, EPOLLIN, wakeup_cb)]\<rparr>),
       signaled := signaled p @ [next_fd p], next_fd := Suc (next_fd p)\<rparr>"
  from inv have na: "\<not> aborted p" and old: "\<forall>r\<in>set (callbacks (server p)). fst r < next_fd p"
    and dist: "distinct (map fst (callbacks (server p)))"
    by (simp_all add: cascade_inv_def)
  from q pc na have q_eq: "q = set_worker i ?w' ?p'"
    by (simp add: worker_successors_def Let_def arm_wakeup_fresh [OF old])
  have ready_q: "ready_registrations q = ready_registrations p @ [(next_fd p, EPOLLIN, wakeup_cb)]"
    using ready_after_arm [OF old, of ?a] by (simp add: q_eq set_worker_def ready_registrations_def)
  have "sum_list (map holds_wakeup ((workers p)[i := ?w'])) + holds_wakeup ?w
      = sum_list (map holds_wakeup (workers p)) + holds_wakeup ?w'"
    by (rule sum_list_map_update [OF i])
  with pc have tok: "Suc (sum_list (map holds_wakeup ((workers p)[i := ?w'])))
      = sum_list (map holds_wakeup (workers p))"
    by (simp add: holds_wakeup_def)
  have "sum_list (map (\<lambda>w. weight (pc w)) ((workers p)[i := ?w'])) + weight (pc ?w)
      = sum_list (map (\<lambda>w. weight (pc w)) (workers p)) + weight (pc ?w')"
    by (rule sum_list_map_update [OF i])
  with pc have meas: "Suc (steps_left q) = steps_left p"
    by (simp add: steps_left_def q_eq set_worker_def)
  from inv i have "length (armed ?w) = (if pc ?w = terminated then 1 else 0)"
    by (simp add: cascade_inv_def)
  with pc have "length (armed ?w') = (if pc ?w' = terminated then 1 else 0)"
    by simp
  with inv have arm: "\<forall>w\<in>set ((workers p)[i := ?w']). length (armed w) = (if pc w = terminated then 1 else 0)"
    by (intro set_update_all) (simp_all add: cascade_inv_def)
  from inv have count: "length (ready_registrations p) + sum_list (map holds_wakeup (workers p)) = 1"
    by (simp add: cascade_inv_def)
  have len: "length (ready_registrations q) = Suc (length (ready_registrations p))"
    by (simp add: ready_q)
  have wq: "workers q = (workers p)[i := ?w']"
    by (simp add: q_eq set_worker_def)
  from count tok len have count': "length (ready_registrations q) + sum_list (map holds_wakeup (workers q)) = 1"
    unfolding wq by arith
  from inv have cbs: "\<forall>r\<in>set (ready_registrations q). snd (snd r) = wakeup_cb"
    by (auto simp: ready_q cascade_inv_def)
  from old have "next_fd p \<notin> fst ` set (callbacks (server p))"
    by auto
  with inv old have "\<not> aborted q" "\<not> running (server q)"
      "\<forall>r\<in>set (callbacks (server q)). fst r < next_fd q"
      "distinct (map fst (callbacks (server q)))"
    by (auto simp: cascade_inv_def q_eq set_worker_def note_action_def)
  moreover
  have "sum_list (map (\<lambda>w. mset (armed w)) ((workers p)[i := ?w'])) + mset (armed ?w)
      = sum_list (map (\<lambda>w. mset (armed w)) (workers p)) + mset (armed ?w')"
    by (rule sum_list_map_update [OF i])
  then have ms: "sum_list (map (\<lambda>w. mset (armed w)) ((workers p)[i := ?w']))
      = sum_list (map (\<lambda>w. mset (armed w)) (workers p)) + {#next_fd p#}"
    by simp
  from inv have b: "b < next_fd p"
    and old_ms: "sum_list (map (\<lambda>w. mset (armed w)) (workers p)) = mset [Suc b..<next_fd p]"
    by (simp_all add: cascade_inv_def)
  have nq: "next_fd q = Suc (next_fd p)"
    by (simp add: q_eq set_worker_def)
  from b have "mset [Suc b..<Suc (next_fd p)] = mset [Suc b..<next_fd p] + {#next_fd p#}"
    by simp
  with ms old_ms b have "b < next_fd q"
      "sum_list (map (\<lambda>w. mset (armed w)) (workers q)) = mset [Suc b..<next_fd q]"
    unfolding nq wq by simp_all
  ultimately have "cascade_inv b q"
    using count' cbs arm unfolding cascade_inv_def by (simp add: wq)
  with meas show ?thesis
    by (simp add: q_eq set_worker_def)
qed

lemma cascade_step:
  assumes inv: "cascade_inv b p" and q: "q \<in> set (pool_successors env p)"
  shows "cascade_inv b q \<and> Suc (steps_left q) = steps_left p \<and> length (workers q) = length (workers p)"
proof -
  from q obtain i where i: "i < length (workers p)" and qi: "q \<in> set (worker_successors env p i)"
    by (auto simp: pool_successors_def)
  show ?thesis
  proof (cases "pc (workers p ! i)")
    case in_HandleEvent
    from step_dispatch [OF inv i this qi] show ?thesis .
  next
    case at_loop_test
    from step_loop_test [OF inv i this qi] show ?thesis .
  next
    case at_BestEffortWakeup
    from step_wakeup [OF inv i this qi] show ?thesis .
  next
    case terminated
    then have "worker_successors env p i = []"
      by (simp add: worker_successors_def Let_def)
    with qi show ?thesis by simp
  qed
qed

lemma cascade_progress:
  assumes inv: "cascade_inv b p" and i: "i < length (workers p)"
    and live: "pc (workers p ! i) \<noteq> terminated"
  shows "pool_successors env p \<noteq> []"
proof -
  from inv have na: "\<not> aborted p" and old: "\<forall>r\<in>set (callbacks (server p)). fst r < next_fd p"
    and count: "length (ready_registrations p) + sum_list (map holds_wakeup (workers p)) = 1"
    by (simp_all add: cascade_inv_def)
  have enabled: "\<exists>j<length (workers p). worker_successors env p j \<noteq> []"
  proof (cases "ready_registrations p = []")
    case False
    show ?thesis
    proof (cases "pc (workers p ! i)")
      case in_HandleEvent
      with False na have "worker_successors env p i \<noteq> []"
        by (simp add: worker_successors_def Let_def)
      with i show ?thesis by blast
    next
      case at_loop_test
      with na have "worker_successors env p i \<noteq> []"
        by (simp add: worker_successors_def Let_def)
      with i show ?thesis by blast
    next
      case at_BestEffortWakeup
      with na have "worker_successors env p i \<noteq> []"
        by (simp add: worker_successors_def Let_def arm_wakeup_fresh [OF old])
      with i show ?thesis by blast
    next
      case terminated
      with live show ?thesis by simp
    qed
  next
    case True
    with count have "sum_list (map holds_wakeup (workers p)) \<noteq> 0" by simp
    then obtain w where w: "w \<in> set (workers p)" and hw: "holds_wakeup w \<noteq> 0"
      by (auto simp: sum_list_eq_0_iff)
    from w obtain j where j: "j < length (workers p)" and wj: "workers p ! j = w"
      by (auto simp: in_set_conv_nth)
    from hw have "pc w = at_loop_test \<or> pc w = at_BestEffortWakeup"
      by (simp add: holds_wakeup_def split: if_splits)
    with na wj have "worker_successors env p j \<noteq> []"
      by (auto simp: worker_successors_def Let_def arm_wakeup_fresh [OF old])
    with j show ?thesis by blast
  qed
  then obtain j where j: "j < length (workers p)" and nj: "worker_successors env p j \<noteq> []"
    by blast
  then obtain q where "q \<in> set (worker_successors env p j)"
    by (cases "worker_successors env p j") auto
  with j have "q \<in> set (pool_successors env p)"
    by (auto simp: pool_successors_def)
  then show ?thesis by auto
qed

lemma cascade_run:
  "cascade_inv b p \<Longrightarrow> is_run env (p # rest) \<Longrightarrow>
   cascade_inv b (last (p # rest)) \<and> steps_left (last (p # rest)) + length rest = steps_left p
   \<and> length (workers (last (p # rest))) = length (workers p)"
proof (induction rest arbitrary: p)
  case Nil
  then show ?case by simp
next
  case (Cons q rest)
  from Cons.prems have q: "q \<in> set (pool_successors env p)" and run: "is_run env (q # rest)"
    by simp_all
  from cascade_step [OF Cons.prems(1) q] have invq: "cascade_inv b q"
    and m: "Suc (steps_left q) = steps_left p" and l: "length (workers q) = length (workers p)"
    by simp_all
  from Cons.IH [OF invq run] m l show ?case by simp
qed

lemma shutdown_establishes:
  assumes "\<forall>r\<in>set (callbacks s). fst r < free_fd" and "distinct (map fst (callbacks s))"
  shows "cascade_inv free_fd (request_shutdown (blocked_pool n s free_fd))
       \<and> steps_left (request_shutdown (blocked_pool n s free_fd)) = 3 * n
       \<and> length (workers (request_shutdown (blocked_pool n s free_fd))) = n"
proof -
  let ?b = "(blocked_pool n s free_fd)\<lparr>server := s\<lparr>running := False\<rparr>\<rparr>"
  have old: "\<forall>r\<in>set (callbacks (server ?b)). fst r < next_fd ?b"
    using assms(1) by (simp add: blocked_pool_def)
  have nr: "ready_registrations ?b = []"
    by (simp add: ready_registrations_def blocked_pool_def)
  have rs: "request_shutdown (blocked_pool n s free_fd) =
     ?b\<lparr>server := note_action (Call_Register free_fd EPOLLIN wakeup_cb True)
           (s\<lparr>running := False, callbacks := callbacks s @ [(free_fd, EPOLLIN, wakeup_cb)]\<rparr>),
        signaled := [free_fd], next_fd := Suc free_fd, aborted := False\<rparr>"
    using arm_wakeup_fresh [OF old] by (simp add: request_shutdown_def blocked_pool_def)
  have ready: "ready_registrations (request_shutdown (blocked_pool n s free_fd))
      = [(free_fd, EPOLLIN, wakeup_cb)]"
  proof -
    have "filter (\<lambda>r. fst r = free_fd \<and> fst (snd r) AND EPOLLIN \<noteq> 0) (callbacks s) = []"
      using assms(1) by (auto simp: filter_empty_conv)
    then show ?thesis
      by (simp add: rs ready_registrations_def note_action_def EPOLLIN_def)
  qed
  let ?q = "request_shutdown (blocked_pool n s free_fd)"
  have w: "workers ?q = replicate n \<lparr>pc = in_HandleEvent, armed = []\<rparr>"
    by (simp add: rs) (simp add: blocked_pool_def)
  have c: "callbacks (server ?q) = callbacks s @ [(free_fd, EPOLLIN, wakeup_cb)]"
    by (simp add: rs note_action_def)
  have flags: "\<not> aborted ?q" "\<not> running (server ?q)" "next_fd ?q = Suc free_fd"
    by (simp_all add: rs note_action_def)
  have tok: "sum_list (map holds_wakeup (workers ?q)) = 0"
    by (simp add: w sum_list_eq_0_iff holds_wakeup_def)
  have "sum_list (map (\<lambda>w. weight (pc w)) (replicate n \<lparr>pc = in_HandleEvent, armed = []\<rparr>)) = 3 * n"
    by (induction n) simp_all
  then have meas: "steps_left ?q = 3 * n"
    by (simp add: steps_left_def w)
  have arm: "\<forall>w\<in>set (workers ?q). length (armed w) = (if pc w = terminated then 1 else 0)"
    by (simp add: w)
  from assms(1) have fresh: "free_fd \<notin> fst ` set (callbacks s)" by auto
  from assms(1) have lt: "\<forall>r\<in>set (callbacks (server ?q)). fst r < next_fd ?q"
    by (auto simp: c flags)
  from assms(2) fresh have dist: "distinct (map fst (callbacks (server ?q)))"
    by (simp add: c)
  have "sum_list (replicate n ({#} :: SharedFD multiset)) = {#}"
    by (induction n) simp_all
  then have ms: "sum_list (map (\<lambda>w. mset (armed w)) (workers ?q)) = {#}"
    by (simp add: w)
  from flags lt dist ready tok arm ms have "cascade_inv free_fd ?q"
    unfolding cascade_inv_def by simp
  with meas w show ?thesis
    by simp
qed


lemma sum_lengths_one:
  "\<forall>w\<in>set ws. length (armed w) = 1 \<Longrightarrow>
   sum_list (map (\<lambda>w. length (armed w)) ws) = length ws"
  by (induction ws) simp_all

lemma size_sum_armed:
  "size (sum_list (map (\<lambda>w. mset (armed w)) ws)) = sum_list (map (\<lambda>w. length (armed w)) ws)"
  by (induction ws) simp_all

lemma all_terminated_no_steps:
  assumes "Join_returns p"
  shows "pool_successors env p = [] \<and> steps_left p = 0"
proof -
  from assms have t: "\<forall>w\<in>set (workers p). pc w = terminated"
    by (simp add: Join_returns_def)
  then have "\<forall>i<length (workers p). worker_successors env p i = []"
    by (simp add: worker_successors_def Let_def)
  then have "pool_successors env p = []"
    by (simp add: pool_successors_def)
  moreover from t have "steps_left p = 0"
    by (simp add: steps_left_def sum_list_eq_0_iff)
  ultimately show ?thesis by simp
qed


lemma first_schedule_is_run: "is_run env (p # first_schedule env k p)"
proof (induction k arbitrary: p)
  case 0
  show ?case by simp
next
  case (Suc k)
  show ?case
  proof (cases "pool_successors env p")
    case Nil
    then show ?thesis by simp
  next
    case (Cons q qs)
    with Suc.IH [of q] show ?thesis by simp
  qed
qed

text \<open>
  C3. Let \<open>n\<close> threads be blocked inside \<open>HandleEvent\<close> with nothing ready, every
  registered descriptor older than the next free one and no descriptor registered twice,
  and let shutdown be requested: the flag is cleared and one signaled eventfd is
  registered. Then no \<open>CHECK\<close> fails and every interleaving of the threads has at most
  \<open>3 * n\<close> steps, can move on whenever some thread has not returned, and so ends
  exactly when \<open>Join\<close> can return: after \<open>3 * n\<close> steps, with all \<open>n\<close> threads
  returned, each having armed exactly one eventfd, and these being the \<open>n\<close> descriptors
  created after the first one.
\<close>

theorem shutdown_wakes_every_worker:
  assumes old: "\<forall>r\<in>set (callbacks s). fst r < free_fd"
    and one: "one_registration_each s"
    and run: "is_run env (request_shutdown (blocked_pool n s free_fd) # rest)"
  shows "length rest \<le> 3 * n
       \<and> \<not> aborted (last (request_shutdown (blocked_pool n s free_fd) # rest))
       \<and> \<not> running (server (last (request_shutdown (blocked_pool n s free_fd) # rest)))
       \<and> (pool_successors env (last (request_shutdown (blocked_pool n s free_fd) # rest)) = []
            \<longleftrightarrow> Join_returns (last (request_shutdown (blocked_pool n s free_fd) # rest)))
       \<and> (Join_returns (last (request_shutdown (blocked_pool n s free_fd) # rest)) \<longrightarrow>
            length rest = 3 * n
          \<and> length (workers (last (request_shutdown (blocked_pool n s free_fd) # rest))) = n
          \<and> (\<forall>w\<in>set (workers (last (request_shutdown (blocked_pool n s free_fd) # rest))).
                pc w = terminated \<and> length (armed w) = 1)
          \<and> mset (concat (map armed
                (workers (last (request_shutdown (blocked_pool n s free_fd) # rest)))))
              = mset [Suc free_fd..<Suc free_fd + n])"
proof -
  let ?start = "request_shutdown (blocked_pool n s free_fd)"
  let ?p = "last (?start # rest)"
  from one have dist: "distinct (map fst (callbacks s))"
    by (simp add: one_registration_each_def)
  from shutdown_establishes [OF old dist, of n]
  have inv0: "cascade_inv free_fd ?start" and m0: "steps_left ?start = 3 * n"
    and l0: "length (workers ?start) = n"
    by simp_all
  note r = cascade_run [OF inv0 run]
  from r have inv: "cascade_inv free_fd ?p"
    by (rule conjunct1)
  from r m0 have m: "steps_left ?p + length rest = 3 * n"
    by metis
  from r l0 have l: "length (workers ?p) = n"
    by metis
  from m have bound: "length rest \<le> 3 * n" by simp
  from inv have flags: "\<not> aborted ?p" "\<not> running (server ?p)"
    by (simp_all add: cascade_inv_def)
  have stuck: "pool_successors env ?p = [] \<longleftrightarrow> Join_returns ?p"
  proof
    assume none: "pool_successors env ?p = []"
    show "Join_returns ?p"
      unfolding Join_returns_def
    proof
      fix w assume "w \<in> set (workers ?p)"
      then obtain i where i: "i < length (workers ?p)" and wi: "workers ?p ! i = w"
        by (auto simp: in_set_conv_nth)
      show "pc w = terminated"
      proof (rule ccontr)
        assume "pc w \<noteq> terminated"
        with wi have "pc (workers ?p ! i) \<noteq> terminated" by simp
        from cascade_progress [OF inv i this] none show False by simp
      qed
    qed
  next
    assume "Join_returns ?p"
    from all_terminated_no_steps [OF this] show "pool_successors env ?p = []" by simp
  qed
  have fin: "Join_returns ?p \<longrightarrow>
       length rest = 3 * n \<and> length (workers ?p) = n
     \<and> (\<forall>w\<in>set (workers ?p). pc w = terminated \<and> length (armed w) = 1)
     \<and> mset (concat (map armed (workers ?p))) = mset [Suc free_fd..<Suc free_fd + n]"
  proof
    assume j: "Join_returns ?p"
    from all_terminated_no_steps [OF j] m have len: "length rest = 3 * n" by simp
    from j have t: "\<forall>w\<in>set (workers ?p). pc w = terminated"
      by (simp add: Join_returns_def)
    from inv have a: "\<forall>w\<in>set (workers ?p). length (armed w) = (if pc w = terminated then 1 else 0)"
      and count: "length (ready_registrations ?p) + sum_list (map holds_wakeup (workers ?p)) = 1"
      and ms: "sum_list (map (\<lambda>w. mset (armed w)) (workers ?p)) = mset [Suc free_fd..<next_fd ?p]"
      and lt: "free_fd < next_fd ?p"
      by (simp_all add: cascade_inv_def)
    from t a have one_each: "\<forall>w\<in>set (workers ?p). pc w = terminated \<and> length (armed w) = 1"
      by simp
    have cm: "mset (concat (map armed (workers ?p))) = sum_list (map (\<lambda>w. mset (armed w)) (workers ?p))"
      by (simp add: mset_concat comp_def)
    from one_each have "sum_list (map (\<lambda>w. length (armed w)) (workers ?p)) = length (workers ?p)"
      by (intro sum_lengths_one) simp
    with ms l have "size (mset [Suc free_fd..<next_fd ?p]) = n"
      using size_sum_armed [of "workers ?p"] by simp
    with lt have nf: "next_fd ?p = Suc free_fd + n"
      by simp
    from cm ms have "mset (concat (map armed (workers ?p))) = mset [Suc free_fd..<next_fd ?p]"
      by (rule trans)
    then have all_armed:
      "mset (concat (map armed (workers ?p))) = mset [Suc free_fd..<Suc free_fd + n]"
      unfolding nf .
    show "length rest = 3 * n \<and> length (workers ?p) = n
     \<and> (\<forall>w\<in>set (workers ?p). pc w = terminated \<and> length (armed w) = 1)
     \<and> mset (concat (map armed (workers ?p))) = mset [Suc free_fd..<Suc free_fd + n]"
      using len l one_each all_armed by blast
  qed
  from bound flags stuck fin show ?thesis by blast
qed

text \<open>
  C3, witness: two blocked threads and the listening socket. The first wake-up is
  descriptor 6; after six steps both threads have returned, having armed 7 and 8.
\<close>

theorem shutdown_wakes_every_worker_witness:
  "callbacks example_server = [(3, EPOLLIN, AcceptClient_cb)]
   \<and> one_registration_each example_server
   \<and> is_run example_env (request_shutdown (blocked_pool 2 example_server 6) # example_cascade)
   \<and> length example_cascade = 6
   \<and> Join_returns (last (request_shutdown (blocked_pool 2 example_server 6) # example_cascade))
   \<and> map armed (workers (last (request_shutdown (blocked_pool 2 example_server 6)
        # example_cascade))) = [[7], [8]]"
proof -
  have a: "\<forall>r\<in>set (callbacks example_server). fst r < 6"
    by (simp add: example_defs)
  have b: "one_registration_each example_server"
    by (simp add: one_registration_each_def example_defs)
  have c: "is_run example_env (request_shutdown (blocked_pool 2 example_server 6) # example_cascade)"
    unfolding example_cascade_def example_shutdown_def by (rule first_schedule_is_run)
  have d: "map (\<lambda>w. (pc w, armed w))
      (workers (last (request_shutdown (blocked_pool 2 example_server 6) # example_cascade)))
      = [(terminated, [7]), (terminated, [8])] \<and> length example_cascade = 6"
    by (simp add: example_cascade_def example_shutdown_def request_shutdown_def blocked_pool_def
          arm_wakeup_def BestEffortWakeup_def Register_def registered_def note_action_def
          pool_successors_def worker_successors_def ready_registrations_def set_worker_def
          HandleEvent_def invoke_callback_def example_defs Let_def numeral_eq_Suc upt_rec)
  let ?ws = "workers (last (request_shutdown (blocked_pool 2 example_server 6) # example_cascade))"
  have "\<forall>w\<in>set ?ws. (pc w, armed w) \<in> set (map (\<lambda>w. (pc w, armed w)) ?ws)"
    by simp
  with d have e: "Join_returns (last (request_shutdown (blocked_pool 2 example_server 6)
      # example_cascade))"
    unfolding Join_returns_def by auto
  have "map armed ?ws = map snd (map (\<lambda>w. (pc w, armed w)) ?ws)"
    by (simp add: comp_def)
  with d have f: "map armed ?ws = [[7], [8]]"
    by simp
  from shutdown_wakes_every_worker [OF a b c] e
  have "length example_cascade = 3 * 2"
    by blast
  moreover have "callbacks example_server = [(3, EPOLLIN, AcceptClient_cb)]"
    by (simp add: example_defs)
  ultimately show ?thesis using b c e f by simp
qed

end
